theory Spec2Isabelle
  imports Main
begin

section \<open>Characters and strings\<close>

text \<open>
  The converter works on Python \<open>str\<close> values. A string is modelled as a list of
  characters, one list element per code point, so \<open>length\<close> is Python's \<open>len\<close> and a
  column is a list index. In the model of the lines (scanning, merging, formatting and
  the pass) the characters are the code points below 256. On that range the tables
  below are the ones Python uses: \<open>str.isspace\<close>, \<open>str.strip\<close>, \<open>str.split\<close> and
  the pattern escape \<open>\s\<close> share one set of white space, \<open>\d\<close> is the ten ASCII
  digits, and the only characters whose lower-case form is an ASCII letter are the
  ASCII letters. The classifier of chord tokens is modelled a second time further
  down, on every Unicode code point, and the two are shown to agree below 256.
\<close>

definition whitespace_chars :: "char list" where
  "whitespace_chars =
     [CHR 0x09, CHR 0x0A, CHR 0x0B, CHR 0x0C, CHR 0x0D,
      CHR 0x1C, CHR 0x1D, CHR 0x1E, CHR 0x1F, CHR 0x20, CHR 0x85, CHR 0xA0]"

definition isspace :: "char \<Rightarrow> bool" where
  "isspace c \<longleftrightarrow> c \<in> set whitespace_chars"

definition isdigit :: "char \<Rightarrow> bool" where
  "isdigit c \<longleftrightarrow> c \<in> set ''0123456789''"

definition to_lower :: "char \<Rightarrow> char" where
  "to_lower c =
     (case map_of (zip ''ABCDEFGHIJKLMNOPQRSTUVWXYZ'' ''abcdefghijklmnopqrstuvwxyz'') c of
        Some l \<Rightarrow> l
      | None \<Rightarrow> c)"

definition lstrip :: "string \<Rightarrow> string" where
  "lstrip s = dropWhile isspace s"

definition rstrip :: "string \<Rightarrow> string" where
  "rstrip s = rev (dropWhile isspace (rev s))"

text \<open>\<open>s.strip()\<close>: white space removed from both ends.\<close>

definition strip :: "string \<Rightarrow> string" where
  "strip s = rstrip (lstrip s)"

text \<open>\<open>s.isspace()\<close>: at least one character, all of them white space.\<close>

definition str_isspace :: "string \<Rightarrow> bool" where
  "str_isspace s \<longleftrightarrow> s \<noteq> [] \<and> list_all isspace s"

definition bracketed :: "string \<Rightarrow> string" where
  "bracketed chord = ''['' @ chord @ '']''"

section \<open>Regular expressions\<close>

text \<open>
  The patterns of the program use single characters, character sets, the escapes
  \<open>\d\<close>, \<open>\s\<close>, \<open>\S\<close>, the dot, sequence, alternation, \<open>?\<close>, and \<open>*\<close> and \<open>+\<close>
  applied to one character class. \<open>rems icase r s\<close> lists, in the order a backtracking
  matcher tries them, the rests of \<open>s\<close> left after each way of matching \<open>r\<close> at the
  start of \<open>s\<close>. The flag is \<open>re.IGNORECASE\<close>: a literal or a set then matches a
  character whose lower-case form is the lower-case form of the literal or of a member.
\<close>

datatype cls = Lit char | OneOf "char list" | Digit | Space | NonSpace | Dot

datatype rx = Eps | One cls | Seq rx rx | Alt rx rx | Opt rx | Star cls | Plus cls

fun cls_match :: "bool \<Rightarrow> cls \<Rightarrow> char \<Rightarrow> bool" where
  "cls_match icase (Lit x) c = (if icase then to_lower c = to_lower x else c = x)"
| "cls_match icase (OneOf xs) c =
     (if icase then to_lower c \<in> set (map to_lower xs) else c \<in> set xs)"
| "cls_match icase Digit c = isdigit c"
| "cls_match icase Space c = isspace c"
| "cls_match icase NonSpace c = (\<not> isspace c)"
| "cls_match icase Dot c = (c \<noteq> CHR 0x0A)"

text \<open>The rests after a greedy run of characters that satisfy \<open>P\<close>, longest run first.\<close>

fun many :: "('c \<Rightarrow> bool) \<Rightarrow> 'c list \<Rightarrow> 'c list list" where
  "many P [] = [[]]"
| "many P (c # cs) = (if P c then many P cs @ [c # cs] else [c # cs])"

fun rems :: "bool \<Rightarrow> rx \<Rightarrow> string \<Rightarrow> string list" where
  "rems icase Eps s = [s]"
| "rems icase (One k) s =
     (case s of [] \<Rightarrow> [] | c # cs \<Rightarrow> if cls_match icase k c then [cs] else [])"
| "rems icase (Seq a b) s = concat (map (rems icase b) (rems icase a s))"
| "rems icase (Alt a b) s = rems icase a s @ rems icase b s"
| "rems icase (Opt a) s = rems icase a s @ [s]"
| "rems icase (Star k) s = many (cls_match icase k) s"
| "rems icase (Plus k) s =
     (case s of [] \<Rightarrow> []
      | c # cs \<Rightarrow> if cls_match icase k c then many (cls_match icase k) cs else [])"

text \<open>
  \<open>re.compile("^" + r + "$", flags).match(s)\<close> as a truth value. \<open>match\<close> starts at
  the first character, so \<open>^\<close> holds there; \<open>$\<close> holds at the end of the string and
  just before a line feed that is its last character.
\<close>

definition at_dollar :: "string \<Rightarrow> bool" where
  "at_dollar s \<longleftrightarrow> s = [] \<or> s = [CHR 0x0A]"

definition re_match_anchored :: "bool \<Rightarrow> rx \<Rightarrow> string \<Rightarrow> bool" where
  "re_match_anchored icase r s \<longleftrightarrow> list_ex at_dollar (rems icase r s)"

text \<open>A word of the pattern, one literal after the other.\<close>

fun lits :: "string \<Rightarrow> rx" where
  "lits [] = Eps"
| "lits (c # cs) = Seq (One (Lit c)) (lits cs)"

section \<open>Token classification\<close>

text \<open>
  \<open>[A-G](?:#|b)?(?:(?:maj|min|m|dim|aug|sus|add)\d*)?(?:/[A-G](?:#|b)?)?\<close>, compiled
  with \<open>re.IGNORECASE\<close> between \<open>^\<close> and \<open>$\<close>.
\<close>

definition accidental_rx :: rx where
  "accidental_rx = Opt (Alt (One (Lit CHR ''#'')) (One (Lit CHR ''b'')))"

definition quality_rx :: rx where
  "quality_rx =
     Opt (Seq (Alt (lits ''maj'') (Alt (lits ''min'') (Alt (lits ''m'') (Alt (lits ''dim'')
            (Alt (lits ''aug'') (Alt (lits ''sus'') (lits ''add'')))))))
              (Star Digit))"

definition slash_bass_rx :: rx where
  "slash_bass_rx = Opt (Seq (One (Lit CHR ''/'')) (Seq (One (OneOf ''ABCDEFG'')) accidental_rx))"

definition CHORD_TOKEN_RE :: rx where
  "CHORD_TOKEN_RE =
     Seq (One (OneOf ''ABCDEFG'')) (Seq accidental_rx (Seq quality_rx slash_bass_rx))"

text \<open>\<open>^\(.*\)$\<close>\<close>

definition PAREN_ANNOTATION_RE :: rx where
  "PAREN_ANNOTATION_RE = Seq (One (Lit CHR ''('')) (Seq (Star Dot) (One (Lit CHR '')'')))"

text \<open>\<open>^\|+$\<close>\<close>

definition BAR_SEPARATOR_RE :: rx where
  "BAR_SEPARATOR_RE = Plus (Lit CHR ''|'')"

definition is_chord_token :: "string \<Rightarrow> bool" where
  "is_chord_token token \<longleftrightarrow>
     (if token = [] then False else re_match_anchored True CHORD_TOKEN_RE (strip token))"

definition is_parenthetical_annotation :: "string \<Rightarrow> bool" where
  "is_parenthetical_annotation token \<longleftrightarrow> re_match_anchored False PAREN_ANNOTATION_RE (strip token)"

definition is_bar_separator :: "string \<Rightarrow> bool" where
  "is_bar_separator token \<longleftrightarrow> re_match_anchored False BAR_SEPARATOR_RE (strip token)"

section \<open>Scanning a line\<close>

text \<open>
  \<open>re.finditer(r"\S+", line)\<close>: the maximal runs of characters that are not white
  space, from left to right, each with \<open>match.start()\<close>, the index of its first
  character. \<open>pos\<close> is the index in the whole line of the first character of the rest
  still to scan.
\<close>

function finditer_nonspace :: "nat \<Rightarrow> string \<Rightarrow> (nat \<times> string) list" where
  "finditer_nonspace pos [] = []"
| "finditer_nonspace pos (c # cs) =
     (if isspace c then finditer_nonspace (pos + 1) cs
      else let token = c # takeWhile (\<lambda>x. \<not> isspace x) cs
           in (pos, token) #
              finditer_nonspace (pos + length token) (dropWhile (\<lambda>x. \<not> isspace x) cs))"
  by pat_completeness auto
termination
  by (relation "measure (\<lambda>(pos, s). length s)")
     (auto simp: length_dropWhile_le less_Suc_eq_le)

text \<open>
  \<open>re.finditer(r"\S+|\s+", line)\<close>: the line cut into its maximal runs of non-space
  and of white-space characters.
\<close>

function finditer_pieces :: "string \<Rightarrow> string list" where
  "finditer_pieces [] = []"
| "finditer_pieces (c # cs) =
     (if isspace c
      then (c # takeWhile isspace cs) # finditer_pieces (dropWhile isspace cs)
      else (c # takeWhile (\<lambda>x. \<not> isspace x) cs) #
           finditer_pieces (dropWhile (\<lambda>x. \<not> isspace x) cs))"
  by pat_completeness auto
termination
  by (relation "measure length") (auto simp: length_dropWhile_le less_Suc_eq_le)

text \<open>\<open>line.split()\<close>: the words between runs of white space.\<close>

function split_ws :: "string \<Rightarrow> string list" where
  "split_ws [] = []"
| "split_ws (c # cs) =
     (if isspace c then split_ws cs
      else (c # takeWhile (\<lambda>x. \<not> isspace x) cs) #
           split_ws (dropWhile (\<lambda>x. \<not> isspace x) cs))"
  by pat_completeness auto
termination
  by (relation "measure length") (auto simp: length_dropWhile_le less_Suc_eq_le)

section \<open>Line classification\<close>

definition is_chord_only_line :: "string \<Rightarrow> bool" where
  "is_chord_only_line line \<longleftrightarrow>
     (let tokens = filter (\<lambda>tok. tok \<noteq> []) (split_ws line)
      in if tokens = [] then False
         else list_all (\<lambda>tok. is_chord_token tok \<or> is_parenthetical_annotation tok
                                \<or> is_bar_separator tok) tokens)"

section \<open>Merging a chord line into a lyric line\<close>

text \<open>Step 1 of \<open>merge_chords_and_lyrics\<close>: the chord tokens with their columns.\<close>

definition chord_positions :: "string \<Rightarrow> (nat \<times> string) list" where
  "chord_positions chord_line =
     filter (\<lambda>(start, token). is_chord_token token) (finditer_nonspace 0 chord_line)"

text \<open>
  \<open>xs[i:i] = ins\<close>. A slice index below zero counts from the end and is then cut off
  at zero; one beyond the end is cut off at the end.
\<close>

definition slice_insert :: "int \<Rightarrow> string \<Rightarrow> string \<Rightarrow> string" where
  "slice_insert i ins xs =
     (let n = int (length xs);
          j = (if i < 0 then max 0 (i + n) else min i n)
      in take (nat j) xs @ ins @ drop (nat j) xs)"

text \<open>Step 3, the loop over \<open>chord_positions\<close> with its state \<open>offset\<close>, \<open>lyric_chars\<close>.\<close>

fun insert_chords :: "(nat \<times> string) list \<Rightarrow> int \<Rightarrow> string \<Rightarrow> string" where
  "insert_chords [] offset lyric_chars = lyric_chars"
| "insert_chords ((pos, chord) # rest) offset lyric_chars =
     (let insert_at = int pos + offset;
          insert_at = (if insert_at < 0 then 0 else insert_at);
          insert_at = (if insert_at > int (length lyric_chars)
                       then int (length lyric_chars) else insert_at);
          lyric_chars = slice_insert insert_at (bracketed chord) lyric_chars
      in insert_chords rest (offset + int (length (bracketed chord))) lyric_chars)"

definition merge_chords_and_lyrics :: "string \<Rightarrow> string \<Rightarrow> string" where
  "merge_chords_and_lyrics chord_line lyric_line =
     insert_chords (chord_positions chord_line) 0 lyric_line"

section \<open>Formatting a chord line that stands alone\<close>

text \<open>The loop of \<open>format_chord_only_line\<close> over the pieces, with the list \<open>parts\<close>.\<close>

fun format_parts :: "string list \<Rightarrow> string list \<Rightarrow> string list" where
  "format_parts [] parts = parts"
| "format_parts (tok # toks) parts =
     (if str_isspace tok then format_parts toks (parts @ [tok])
      else if is_chord_token tok then format_parts toks (parts @ [bracketed tok])
      else if is_parenthetical_annotation tok \<or> is_bar_separator tok
           then format_parts toks (parts @ [tok])
      else format_parts toks (parts @ [tok]))"

definition format_chord_only_line :: "string \<Rightarrow> string" where
  "format_chord_only_line line = concat (format_parts (finditer_pieces line) [])"

section \<open>The pass over the lines\<close>

datatype py_error = IndexError

text \<open>\<open>xs[i]\<close> for an index that is not negative.\<close>

definition index :: "'a list \<Rightarrow> nat \<Rightarrow> py_error + 'a" where
  "index xs i = (if i < length xs then Inr (xs ! i) else Inl IndexError)"

text \<open>\<open>re.match(r"^\s*\[.*\]\s*$", next_line)\<close>\<close>

definition SECTION_HEADER_RE :: rx where
  "SECTION_HEADER_RE =
     Seq (Star Space) (Seq (One (Lit CHR ''['')) (Seq (Star Dot)
       (Seq (One (Lit CHR '']'')) (Star Space))))"

definition is_section_header :: "string \<Rightarrow> bool" where
  "is_section_header next_line \<longleftrightarrow> re_match_anchored False SECTION_HEADER_RE next_line"

text \<open>The \<open>while i < n\<close> loop of \<open>process_lines\<close>, with its state \<open>i\<close> and \<open>out\<close>.\<close>

function process_loop :: "string list \<Rightarrow> nat \<Rightarrow> string list \<Rightarrow> py_error + string list" where
  "process_loop lines i out =
     (if i < length lines then
        (case index lines i of
           Inl e \<Rightarrow> Inl e
         | Inr cur_line \<Rightarrow>
             if is_chord_only_line cur_line then
               (if i + 1 < length lines then
                  (case index lines (i + 1) of
                     Inl e \<Rightarrow> Inl e
                   | Inr next_line \<Rightarrow>
                       if strip next_line \<noteq> [] \<and> \<not> is_section_header next_line
                       then process_loop lines (i + 2)
                              (out @ [merge_chords_and_lyrics cur_line next_line])
                       else process_loop lines (i + 1)
                              (out @ [format_chord_only_line cur_line]))
                else process_loop lines (i + 1) (out @ [format_chord_only_line cur_line]))
             else process_loop lines (i + 1) (out @ [cur_line]))
      else Inr out)"
  by pat_completeness auto
termination
  by (relation "measure (\<lambda>(lines, i, out). length lines - i)") auto

definition process_lines :: "string list \<Rightarrow> py_error + string list" where
  "process_lines lines = process_loop lines 0 []"

section \<open>The token classifier on all of Unicode\<close>

text \<open>
  A Python \<open>str\<close> holds any Unicode code point, and the patterns and \<open>strip\<close> are
  Unicode-aware. For the classifier of chord tokens the model is therefore given once
  more on lists of code points, as natural numbers, with Python's tables for all of
  Unicode (Python 3.11, Unicode 14.0): the white space of \<open>str.strip\<close> and \<open>\s\<close>,
  the decimal digits of \<open>\d\<close>, and the letters that \<open>re.IGNORECASE\<close> identifies.
  The pattern is the same \<open>CHORD_TOKEN_RE\<close>; its own characters are ASCII.
\<close>

definition unicode_whitespace :: "nat list" where
  "unicode_whitespace =
     [0x09, 0x0A, 0x0B, 0x0C, 0x0D, 0x1C, 0x1D, 0x1E, 0x1F, 0x20, 0x85, 0xA0, 0x1680,
      0x2000, 0x2001, 0x2002, 0x2003, 0x2004, 0x2005, 0x2006, 0x2007, 0x2008, 0x2009,
      0x200A, 0x2028, 0x2029, 0x202F, 0x205F, 0x3000]"

definition u_isspace :: "nat \<Rightarrow> bool" where
  "u_isspace c \<longleftrightarrow> c \<in> set unicode_whitespace"

text \<open>The code points of general category Nd, as ranges with both ends included.\<close>

definition unicode_decimal_ranges :: "(nat \<times> nat) list" where
  "unicode_decimal_ranges =
     [(48, 57), (1632, 1641), (1776, 1785), (1984, 1993), (2406, 2415), (2534, 2543),
      (2662, 2671), (2790, 2799), (2918, 2927), (3046, 3055), (3174, 3183), (3302, 3311),
      (3430, 3439), (3558, 3567), (3664, 3673), (3792, 3801), (3872, 3881), (4160, 4169),
      (4240, 4249), (6112, 6121), (6160, 6169), (6470, 6479), (6608, 6617), (6784, 6793),
      (6800, 6809), (6992, 7001), (7088, 7097), (7232, 7241), (7248, 7257),
      (42528, 42537), (43216, 43225), (43264, 43273), (43472, 43481), (43504, 43513),
      (43600, 43609), (44016, 44025), (65296, 65305), (66720, 66729), (68912, 68921),
      (69734, 69743), (69872, 69881), (69942, 69951), (70096, 70105), (70384, 70393),
      (70736, 70745), (70864, 70873), (71248, 71257), (71360, 71369), (71472, 71481),
      (71904, 71913), (72016, 72025), (72784, 72793), (73040, 73049), (73120, 73129),
      (92768, 92777), (92864, 92873), (93008, 93017), (120782, 120831),
      (123200, 123209), (123632, 123641), (125264, 125273), (130032, 130041)]"

definition u_isdecimal :: "nat \<Rightarrow> bool" where
  "u_isdecimal c \<longleftrightarrow> list_ex (\<lambda>(lo, hi). lo \<le> c \<and> c \<le> hi) unicode_decimal_ranges"

text \<open>
  With \<open>re.IGNORECASE\<close> the matcher compares lower-case forms, one code point for one
  code point. \<open>sre_lower\<close> is that mapping wherever its value is an ASCII character:
  the letters A to Z, U+0130 (capital I with dot, to \<open>i\<close>) and U+212A (the Kelvin sign,
  to \<open>k\<close>). Every other code point with a lower-case form of its own has it outside
  ASCII, where no character of the program's patterns lies; it stands for itself here.
  \<open>sre_fixes\<close> lists the further lower-case code points that the matcher takes for
  the same letter as an ASCII letter: U+0131 (dotless i) for \<open>i\<close> and U+017F (long s)
  for \<open>s\<close>.
\<close>

definition sre_lower :: "nat \<Rightarrow> nat" where
  "sre_lower c =
     (if 0x41 \<le> c \<and> c \<le> 0x5A then c + 0x20
      else if c = 0x130 then 0x69
      else if c = 0x212A then 0x6B
      else c)"

definition sre_fixes :: "nat \<Rightarrow> nat list" where
  "sre_fixes lo = (if lo = 0x69 then [0x131] else if lo = 0x73 then [0x17F] else [])"

text \<open>A literal \<open>x\<close> of the pattern against the code point \<open>c\<close> of the subject.\<close>

definition literal_ignorecase :: "char \<Rightarrow> nat \<Rightarrow> bool" where
  "literal_ignorecase x c \<longleftrightarrow>
     (let lo = sre_lower (of_char x) in sre_lower c \<in> set (lo # sre_fixes lo))"

fun u_cls_match :: "bool \<Rightarrow> cls \<Rightarrow> nat \<Rightarrow> bool" where
  "u_cls_match icase (Lit x) c = (if icase then literal_ignorecase x c else c = of_char x)"
| "u_cls_match icase (OneOf xs) c =
     (if icase then list_ex (\<lambda>x. literal_ignorecase x c) xs else c \<in> set (map of_char xs))"
| "u_cls_match icase Digit c = u_isdecimal c"
| "u_cls_match icase Space c = u_isspace c"
| "u_cls_match icase NonSpace c = (\<not> u_isspace c)"
| "u_cls_match icase Dot c = (c \<noteq> 0x0A)"

fun u_rems :: "bool \<Rightarrow> rx \<Rightarrow> nat list \<Rightarrow> nat list list" where
  "u_rems icase Eps s = [s]"
| "u_rems icase (One k) s =
     (case s of [] \<Rightarrow> [] | c # cs \<Rightarrow> if u_cls_match icase k c then [cs] else [])"
| "u_rems icase (Seq a b) s = concat (map (u_rems icase b) (u_rems icase a s))"
| "u_rems icase (Alt a b) s = u_rems icase a s @ u_rems icase b s"
| "u_rems icase (Opt a) s = u_rems icase a s @ [s]"
| "u_rems icase (Star k) s = many (u_cls_match icase k) s"
| "u_rems icase (Plus k) s =
     (case s of [] \<Rightarrow> []
      | c # cs \<Rightarrow> if u_cls_match icase k c then many (u_cls_match icase k) cs else [])"

definition u_at_dollar :: "nat list \<Rightarrow> bool" where
  "u_at_dollar s \<longleftrightarrow> s = [] \<or> s = [0x0A]"

definition u_re_match_anchored :: "bool \<Rightarrow> rx \<Rightarrow> nat list \<Rightarrow> bool" where
  "u_re_match_anchored icase r s \<longleftrightarrow> list_ex u_at_dollar (u_rems icase r s)"

definition u_strip :: "nat list \<Rightarrow> nat list" where
  "u_strip s = rev (dropWhile u_isspace (rev (dropWhile u_isspace s)))"

text \<open>\<open>is_chord_token\<close> on a token of any code points.\<close>

definition u_is_chord_token :: "nat list \<Rightarrow> bool" where
  "u_is_chord_token token \<longleftrightarrow>
     (if token = [] then False else u_re_match_anchored True CHORD_TOKEN_RE (u_strip token))"

section \<open>Notions of the specification\<close>

subsection \<open>Languages of patterns\<close>

definition conc :: "'c list set \<Rightarrow> 'c list set \<Rightarrow> 'c list set" where
  "conc A B = {u @ v | u v. u \<in> A \<and> v \<in> B}"

text \<open>The strings a pattern matches from their first to their last character.\<close>

fun lang :: "bool \<Rightarrow> rx \<Rightarrow> string set" where
  "lang icase Eps = {[]}"
| "lang icase (One k) = {[c] | c. cls_match icase k c}"
| "lang icase (Seq a b) = conc (lang icase a) (lang icase b)"
| "lang icase (Alt a b) = lang icase a \<union> lang icase b"
| "lang icase (Opt a) = lang icase a \<union> {[]}"
| "lang icase (Star k) = {s. list_all (cls_match icase k) s}"
| "lang icase (Plus k) = {s. s \<noteq> [] \<and> list_all (cls_match icase k) s}"

subsection \<open>The chord grammar\<close>

text \<open>
  The grammar of a chord symbol on characters below code point 256: a letter A to G,
  an optional accidental, an optional quality keyword with optional digits after it,
  an optional slash and bass note; letters in either case.
\<close>

definition note_letter :: "char \<Rightarrow> bool" where
  "note_letter c \<longleftrightarrow> to_lower c \<in> set ''abcdefg''"

definition accidental :: "string \<Rightarrow> bool" where
  "accidental a \<longleftrightarrow> map to_lower a = ''#'' \<or> map to_lower a = ''b''"

definition quality_keywords :: "string list" where
  "quality_keywords = [''maj'', ''min'', ''m'', ''dim'', ''aug'', ''sus'', ''add'']"

definition quality :: "string \<Rightarrow> bool" where
  "quality q \<longleftrightarrow>
     (\<exists>kw ds. q = kw @ ds \<and> map to_lower kw \<in> set quality_keywords \<and> list_all isdigit ds)"

definition slash_bass :: "string \<Rightarrow> bool" where
  "slash_bass b \<longleftrightarrow>
     (\<exists>l a. b = CHR ''/'' # l # a \<and> note_letter l \<and> (a = [] \<or> accidental a))"

definition chord_grammar :: "string \<Rightarrow> bool" where
  "chord_grammar s \<longleftrightarrow>
     (\<exists>root a q b. s = root # a @ q @ b \<and> note_letter root \<and> (a = [] \<or> accidental a)
        \<and> (q = [] \<or> quality q) \<and> (b = [] \<or> slash_bass b))"

subsection \<open>Maximal runs and offsets\<close>

text \<open>
  A list of pieces is the division of a line into maximal runs when the pieces joined
  give the line, no piece is empty, each piece is white space throughout or free of
  white space throughout, and neighbouring pieces are of different kinds.
\<close>

fun alternating :: "string list \<Rightarrow> bool" where
  "alternating (a # b # rest) \<longleftrightarrow> str_isspace a \<noteq> str_isspace b \<and> alternating (b # rest)"
| "alternating _ \<longleftrightarrow> True"

definition maximal_runs :: "string list \<Rightarrow> string \<Rightarrow> bool" where
  "maximal_runs ps line \<longleftrightarrow>
     concat ps = line
     \<and> list_all (\<lambda>p. p \<noteq> [] \<and> (list_all isspace p \<or> list_all (\<lambda>c. \<not> isspace c) p)) ps
     \<and> alternating ps"

text \<open>Each piece with its offset: the number of characters of the line before it.\<close>

fun with_offsets :: "nat \<Rightarrow> string list \<Rightarrow> (nat \<times> string) list" where
  "with_offsets start [] = []"
| "with_offsets start (p # ps) = (start, p) # with_offsets (start + length p) ps"

text \<open>The tokens of a line: its maximal non-white-space runs with their offsets.\<close>

definition tokens_with_offsets :: "string list \<Rightarrow> (nat \<times> string) list" where
  "tokens_with_offsets ps = filter (\<lambda>(start, p). \<not> str_isspace p) (with_offsets 0 ps)"

subsection \<open>The merge as the specification words it\<close>

definition insert_at :: "nat \<Rightarrow> string \<Rightarrow> string \<Rightarrow> string" where
  "insert_at k ins xs = take k xs @ ins @ drop k xs"

text \<open>
  One step for a chord token \<open>t\<close> of original offset \<open>p\<close>, on the running offset and
  the lyric so far: insert \<open>[t]\<close> at \<open>p\<close> plus the running offset, cut off at the
  current length; then add the length of \<open>t\<close> plus two to the running offset.
\<close>

definition merge_step :: "nat \<times> string \<Rightarrow> nat \<times> string \<Rightarrow> nat \<times> string" where
  "merge_step state tok =
     (case state of (running, lyric) \<Rightarrow>
        case tok of (p, t) \<Rightarrow>
          (running + (length t + 2),
           insert_at (min (p + running) (length lyric)) (bracketed t) lyric))"

text \<open>
  Pieces of the lyric with an inserted string after each piece but the last:
  \<open>weave [s0, s1, s2] [b1, b2] = s0 @ b1 @ s1 @ b2 @ s2\<close>.
\<close>

fun weave :: "string list \<Rightarrow> string list \<Rightarrow> string" where
  "weave (s # ss) (b # bs) = s @ b @ weave ss bs"
| "weave ss [] = concat ss"
| "weave [] bs = concat bs"

text \<open>
  The merged line written out at once, without a running offset. \<open>base\<close> counts the
  characters of the original lyric already passed; \<open>lyric\<close> is the rest of it.
\<close>

fun weave_at :: "nat \<Rightarrow> (nat \<times> string) list \<Rightarrow> string \<Rightarrow> string" where
  "weave_at base [] lyric = lyric"
| "weave_at base ((p, t) # rest) lyric =
     (let k = min (p - base) (length lyric)
      in take k lyric @ bracketed t @ weave_at (base + k) rest (drop k lyric))"

text \<open>\<open>s\<close> has \<open>suf\<close> at its very end.\<close>

definition ends_with :: "string \<Rightarrow> string \<Rightarrow> bool" where
  "ends_with s suf \<longleftrightarrow> length suf \<le> length s \<and> drop (length s - length suf) s = suf"

subsection \<open>The formatted piece\<close>

text \<open>A chord token is put in brackets; every other piece stays as it is.\<close>

definition emit_piece :: "string \<Rightarrow> string" where
  "emit_piece p = (if is_chord_token p then bracketed p else p)"

subsection \<open>The pass as the specification words it\<close>


text \<open>
  A line between brackets, the test of the amended claim: after trimming, the line
  starts with an opening bracket and ends with a later closing bracket, with no line
  feed between them. What lies between may hold brackets of its own.
\<close>

definition bracket_delimited :: "string \<Rightarrow> bool" where
  "bracket_delimited line \<longleftrightarrow>
     (case strip line of
        [] \<Rightarrow> False
      | c # rest \<Rightarrow> c = CHR ''['' \<and> rest \<noteq> [] \<and> last rest = CHR '']''
                    \<and> CHR 0x0A \<notin> set (butlast rest))"

text \<open>The same with the white space around the brackets named.\<close>

definition header_form :: "string \<Rightarrow> bool" where
  "header_form s \<longleftrightarrow>
     (\<exists>w1 body w2. s = w1 @ CHR ''['' # body @ CHR '']'' # w2 \<and> list_all isspace w1
        \<and> CHR 0x0A \<notin> set body \<and> list_all isspace w2)"

text \<open>
  The step of the pass controller at index \<open>i\<close>: the line it emits and the number of
  lines it advances by.
\<close>

definition pass_step :: "string list \<Rightarrow> nat \<Rightarrow> string \<times> nat" where
  "pass_step lines i =
     (if \<not> is_chord_only_line (lines ! i) then (lines ! i, 1)
      else if i + 1 < length lines \<and> strip (lines ! (i + 1)) \<noteq> []
              \<and> \<not> bracket_delimited (lines ! (i + 1))
      then (merge_chords_and_lyrics (lines ! i) (lines ! (i + 1)), 2)
      else (format_chord_only_line (lines ! i), 1))"

subsection \<open>The chord grammar on all of Unicode\<close>

text \<open>The strings of code points a pattern matches from first to last.\<close>

fun u_lang :: "bool \<Rightarrow> rx \<Rightarrow> nat list set" where
  "u_lang icase Eps = {[]}"
| "u_lang icase (One k) = {[c] | c. u_cls_match icase k c}"
| "u_lang icase (Seq a b) = conc (u_lang icase a) (u_lang icase b)"
| "u_lang icase (Alt a b) = u_lang icase a \<union> u_lang icase b"
| "u_lang icase (Opt a) = u_lang icase a \<union> {[]}"
| "u_lang icase (Star k) = {s. list_all (u_cls_match icase k) s}"
| "u_lang icase (Plus k) = {s. s \<noteq> [] \<and> list_all (u_cls_match icase k) s}"

definition ascii_lower :: "nat \<Rightarrow> nat" where
  "ascii_lower c = (if 0x41 \<le> c \<and> c \<le> 0x5A then c + 0x20 else c)"

text \<open>Two tokens that differ in the case of ASCII letters only.\<close>

definition same_up_to_ascii_case :: "nat list \<Rightarrow> nat list \<Rightarrow> bool" where
  "same_up_to_ascii_case t t' \<longleftrightarrow> map ascii_lower t = map ascii_lower t'"

text \<open>
  The code point \<open>c\<close> reads as the lower-case ASCII letter of code \<open>l\<close>: it is that
  letter in either ASCII case, or U+0130 or U+0131 for \<open>i\<close>, or U+017F for \<open>s\<close>, or
  U+212A for \<open>k\<close>.
\<close>

definition letter_as :: "nat \<Rightarrow> nat \<Rightarrow> bool" where
  "letter_as l c \<longleftrightarrow>
     ascii_lower c = l \<or> (l = 0x69 \<and> (c = 0x130 \<or> c = 0x131)) \<or> (l = 0x73 \<and> c = 0x17F)
     \<or> (l = 0x6B \<and> c = 0x212A)"

definition word_as :: "string \<Rightarrow> nat list \<Rightarrow> bool" where
  "word_as w s \<longleftrightarrow> list_all2 (\<lambda>x c. letter_as (of_char x) c) w s"

definition u_note_letter :: "nat \<Rightarrow> bool" where
  "u_note_letter c \<longleftrightarrow> (\<exists>x \<in> set ''abcdefg''. letter_as (of_char x) c)"

definition u_accidental :: "nat list \<Rightarrow> bool" where
  "u_accidental a \<longleftrightarrow> a = [0x23] \<or> word_as ''b'' a"

definition u_quality :: "nat list \<Rightarrow> bool" where
  "u_quality q \<longleftrightarrow>
     (\<exists>kw ds. q = kw @ ds \<and> (\<exists>w \<in> set quality_keywords. word_as w kw)
        \<and> list_all u_isdecimal ds)"

definition u_slash_bass :: "nat list \<Rightarrow> bool" where
  "u_slash_bass b \<longleftrightarrow>
     (\<exists>l a. b = 0x2F # l # a \<and> u_note_letter l \<and> (a = [] \<or> u_accidental a))"

definition u_chord_grammar :: "nat list \<Rightarrow> bool" where
  "u_chord_grammar s \<longleftrightarrow>
     (\<exists>root a q b. s = root # a @ q @ b \<and> u_note_letter root \<and> (a = [] \<or> u_accidental a)
        \<and> (q = [] \<or> u_quality q) \<and> (b = [] \<or> u_slash_bass b))"

text \<open>
  The lower-case form of a string, \<open>str.lower\<close>, on the code points whose lower-case
  form holds an ASCII character: the letters A to Z, U+0130, whose lower-case form is
  \<open>i\<close> followed by the combining dot U+0307, and U+212A. Two tokens differ only in
  letter case when their lower-case forms are equal.
\<close>

definition lower_case_of :: "nat \<Rightarrow> nat list" where
  "lower_case_of c =
     (if 0x41 \<le> c \<and> c \<le> 0x5A then [c + 0x20]
      else if c = 0x130 then [0x69, 0x307]
      else if c = 0x212A then [0x6B]
      else [c])"

definition differ_only_in_case :: "nat list \<Rightarrow> nat list \<Rightarrow> bool" where
  "differ_only_in_case t t' \<longleftrightarrow>
     concat (map lower_case_of t) = concat (map lower_case_of t')"

section \<open>Pattern matching and languages\<close>

lemma set_many: "set (many P s) = {s'. \<exists>u. s = u @ s' \<and> list_all P u}"
proof (induction s)
  case Nil
  then show ?case by auto
next
  case (Cons c cs)
  show ?case
  proof (cases "P c")
    case True
    have "{s'. \<exists>u. c # cs = u @ s' \<and> list_all P u}
        = insert (c # cs) {s'. \<exists>u. cs = u @ s' \<and> list_all P u}"
      using True by (auto simp: Cons_eq_append_conv) 
    then show ?thesis using True Cons.IH by simp
  next
    case False
    then show ?thesis by (auto simp: Cons_eq_append_conv)
  qed
qed

lemma conc_iff: "w \<in> conc A B \<longleftrightarrow> (\<exists>u v. w = u @ v \<and> u \<in> A \<and> v \<in> B)"
  by (simp add: conc_def)

lemma set_rems: "set (rems icase r s) = {s'. \<exists>u \<in> lang icase r. s = u @ s'}"
proof (induction r arbitrary: s)
  case Eps
  show ?case by auto
next
  case (One k)
  show ?case by (cases s) auto
next
  case (Seq a b)
  have "x \<in> set (rems icase (Seq a b) s) \<longleftrightarrow> (\<exists>w \<in> lang icase (Seq a b). s = w @ x)" for x
  proof
    assume "x \<in> set (rems icase (Seq a b) s)"
    then obtain s' where s': "s' \<in> set (rems icase a s)" "x \<in> set (rems icase b s')"
      by auto
    from s' obtain u where u: "u \<in> lang icase a" "s = u @ s'" by (auto simp: Seq.IH(1))
    from s' obtain v where v: "v \<in> lang icase b" "s' = v @ x" by (auto simp: Seq.IH(2))
    have "u @ v \<in> lang icase (Seq a b)" using u v by (auto simp: conc_iff)
    moreover have "s = (u @ v) @ x" using u v by simp
    ultimately show "\<exists>w \<in> lang icase (Seq a b). s = w @ x" by blast
  next
    assume "\<exists>w \<in> lang icase (Seq a b). s = w @ x"
    then obtain u v where uv: "u \<in> lang icase a" "v \<in> lang icase b" "s = (u @ v) @ x"
      by (auto simp: conc_iff)
    have "v @ x \<in> set (rems icase a s)" using uv by (simp add: Seq.IH(1))
    moreover have "x \<in> set (rems icase b (v @ x))" using uv by (simp add: Seq.IH(2))
    ultimately show "x \<in> set (rems icase (Seq a b) s)" by auto
  qed
  then show ?case by blast
next
  case (Alt a b)
  show ?case by (simp add: Alt) blast
next
  case (Opt a)
  show ?case by (simp add: Opt) blast
next
  case (Star k)
  show ?case by (simp add: set_many) blast
next
  case (Plus k)
  show ?case
  proof (cases s)
    case Nil
    then show ?thesis by simp
  next
    case (Cons c cs)
    show ?thesis
    proof (cases "cls_match icase k c")
      case True
      have "{s'. \<exists>u. cs = u @ s' \<and> list_all (cls_match icase k) u}
          = {s'. \<exists>u. u \<noteq> [] \<and> list_all (cls_match icase k) u \<and> c # cs = u @ s'}"
        (is "?L = ?R")
      proof (intro set_eqI iffI)
        fix x assume "x \<in> ?L"
        then obtain u where "cs = u @ x" "list_all (cls_match icase k) u" by blast
        then have "c # u \<noteq> [] \<and> list_all (cls_match icase k) (c # u) \<and> c # cs = (c # u) @ x"
          using True by simp
        then show "x \<in> ?R" by blast
      next
        fix x assume "x \<in> ?R"
        then obtain u where u: "u \<noteq> []" "list_all (cls_match icase k) u" "c # cs = u @ x"
          by blast
        then obtain u' where "u = c # u'" by (cases u) auto
        with u have "cs = u' @ x \<and> list_all (cls_match icase k) u'" by simp
        then show "x \<in> ?L" by blast
      qed
      then show ?thesis using Cons True by (simp add: set_many)
    next
      case False
      have "\<not> (u \<noteq> [] \<and> list_all (cls_match icase k) u \<and> c # cs = u @ x)" for u x
        using False by (cases u) auto
      then show ?thesis using Cons False by simp
    qed
  qed
qed

lemma re_match_anchored_iff:
  "re_match_anchored icase r s \<longleftrightarrow> s \<in> lang icase r \<or> (\<exists>u \<in> lang icase r. s = u @ [CHR 0x0A])"
  unfolding re_match_anchored_def list_ex_iff set_rems at_dollar_def by auto

lemma isspace_newline: "isspace (CHR 0x0A)"
  by (simp add: isspace_def whitespace_chars_def)

lemma strip_Nil_or_last: "strip s = [] \<or> \<not> isspace (last (strip s))"
proof -
  have "rev (strip s) = dropWhile isspace (rev (lstrip s))"
    by (simp add: strip_def rstrip_def)
  then have "rev (strip s) = [] \<or> \<not> isspace (hd (rev (strip s)))"
    by (metis hd_dropWhile)
  then show ?thesis by (simp add: hd_rev)
qed

lemma strip_Nil_or_hd: "strip s = [] \<or> \<not> isspace (hd (strip s))"
proof (cases "strip s = []")
  case True
  then show ?thesis by simp
next
  case False
  have l: "lstrip s = [] \<or> \<not> isspace (hd (lstrip s))"
    unfolding lstrip_def by (metis hd_dropWhile)
  have "\<exists>ws. lstrip s = strip s @ ws"
    unfolding strip_def rstrip_def 
    by (metis rev_append rev_rev_ident takeWhile_dropWhile_id)
  then obtain ws where "lstrip s = strip s @ ws" by blast
  with False l show ?thesis by (cases "strip s") auto
qed

lemma re_match_strip:
  "re_match_anchored icase r (strip t) \<longleftrightarrow> strip t \<in> lang icase r"
proof -
  have "strip t \<noteq> u @ [CHR 0x0A]" for u
    using strip_Nil_or_last [of t] isspace_newline by (metis last_snoc snoc_eq_iff_butlast)
  then show ?thesis by (simp add: re_match_anchored_iff)
qed

section \<open>Folding case\<close>

lemma to_lower_cases:
  "to_lower c = c \<or> (c \<in> set ''ABCDEFGHIJKLMNOPQRSTUVWXYZ'' \<and> to_lower c \<in> set ''abcdefghijklmnopqrstuvwxyz'')"
  by (simp add: to_lower_def)

lemma to_lower_idem: "to_lower (to_lower c) = to_lower c"
  by (simp add: to_lower_def)

lemma isspace_to_lower: "isspace (to_lower c) = isspace c"
  by (simp add: to_lower_def isspace_def whitespace_chars_def)

lemma isdigit_to_lower: "isdigit (to_lower c) = isdigit c"
  by (simp add: to_lower_def isdigit_def)

lemma to_lower_newline: "to_lower c = CHR 0x0A \<longleftrightarrow> c = CHR 0x0A"
  by (simp add: to_lower_def)

section \<open>The chord pattern and the chord grammar\<close>

lemma cls_match_to_lower: "cls_match True k (to_lower c) = cls_match True k c"
  by (cases k) (simp_all add: to_lower_idem isspace_to_lower isdigit_to_lower to_lower_newline)

lemma many_map_to_lower:
  "many (cls_match True k) (map to_lower s) = map (map to_lower) (many (cls_match True k) s)"
  by (induction s) (simp_all add: cls_match_to_lower)

lemma rems_map_to_lower:
  "rems True r (map to_lower s) = map (map to_lower) (rems True r s)"
proof (induction r arbitrary: s)
  case (One k)
  show ?case by (cases s) (simp_all add: cls_match_to_lower)
next
  case (Seq a b)
  show ?case by (simp add: Seq map_concat comp_def)
next
  case (Plus k)
  show ?case by (cases s) (simp_all add: cls_match_to_lower many_map_to_lower)
qed (simp_all add: many_map_to_lower)

lemma at_dollar_map_to_lower: "at_dollar (map to_lower s) = at_dollar s"
  by (cases s) (auto simp: at_dollar_def to_lower_newline)

lemma re_match_map_to_lower:
  "re_match_anchored True r (map to_lower s) = re_match_anchored True r s"
  by (simp add: re_match_anchored_def rems_map_to_lower list_ex_iff at_dollar_map_to_lower)

lemma dropWhile_isspace_map_to_lower:
  "dropWhile isspace (map to_lower s) = map to_lower (dropWhile isspace s)"
  by (induction s) (simp_all add: isspace_to_lower)

lemma strip_map_to_lower: "strip (map to_lower s) = map to_lower (strip s)"
  by (simp add: strip_def lstrip_def rstrip_def dropWhile_isspace_map_to_lower rev_map)

lemma is_chord_token_map_to_lower: "is_chord_token (map to_lower t) = is_chord_token t"
  by (simp add: is_chord_token_def strip_map_to_lower re_match_map_to_lower)

lemma conc_single_iff:
  "w \<in> conc {[c] | c. P c} B \<longleftrightarrow> (\<exists>c v. w = c # v \<and> P c \<and> v \<in> B)"
proof
  assume "w \<in> conc {[c] | c. P c} B"
  then obtain u v where "w = u @ v" "u \<in> {[c] | c. P c}" "v \<in> B"
    unfolding conc_iff by blast
  then show "\<exists>c v. w = c # v \<and> P c \<and> v \<in> B" by auto
next
  assume "\<exists>c v. w = c # v \<and> P c \<and> v \<in> B"
  then obtain c v where "w = [c] @ v" "P c" "v \<in> B" by auto
  then show "w \<in> conc {[c] | c. P c} B" unfolding conc_iff by blast
qed

lemma lang_lits: "lang True (lits w) = {s. map to_lower s = map to_lower w}"
proof (induction w)
  case Nil
  show ?case by simp
next
  case (Cons x w)
  have "s \<in> lang True (lits (x # w)) \<longleftrightarrow> map to_lower s = map to_lower (x # w)" for s
    by (simp add: conc_single_iff Cons map_eq_Cons_conv)
  then show ?case by blast
qed

lemma cls_match_Digit: "cls_match icase Digit = isdigit"
  by (rule ext) simp

lemma lang_note: "lang True (One (OneOf ''ABCDEFG'')) = {[c] | c. note_letter c}"
  by (simp add: note_letter_def to_lower_def)

lemma to_lower_sharp: "to_lower CHR ''#'' = CHR ''#''" and to_lower_b: "to_lower CHR ''b'' = CHR ''b''"
  and to_lower_slash: "to_lower CHR ''/'' = CHR ''/''"
  by (simp_all add: to_lower_def)

lemma lang_accidental: "lang True accidental_rx = {a. a = [] \<or> accidental a}"
proof -
  have "a \<in> lang True accidental_rx \<longleftrightarrow> a = [] \<or> accidental a" for a
    unfolding accidental_rx_def accidental_def
    by (auto simp: to_lower_sharp to_lower_b map_eq_Cons_conv)
  then show ?thesis by blast
qed

lemma keywords_lower:
  "map to_lower ''maj'' = ''maj''" "map to_lower ''min'' = ''min''" "map to_lower ''m'' = ''m''"
  "map to_lower ''dim'' = ''dim''" "map to_lower ''aug'' = ''aug''" "map to_lower ''sus'' = ''sus''"
  "map to_lower ''add'' = ''add''"
  by (simp_all add: to_lower_def)

lemma lang_keywords:
  "lang True (Alt (lits ''maj'') (Alt (lits ''min'') (Alt (lits ''m'') (Alt (lits ''dim'')
     (Alt (lits ''aug'') (Alt (lits ''sus'') (lits ''add'')))))))
   = {kw. map to_lower kw \<in> set quality_keywords}"
  unfolding lang.simps(4) lang_lits keywords_lower quality_keywords_def
  by (simp only: set_simps) blast

lemma lang_quality: "lang True quality_rx = {q. q = [] \<or> quality q}"
proof -
  have "lang True quality_rx
      = conc {kw. map to_lower kw \<in> set quality_keywords} {ds. list_all isdigit ds} \<union> {[]}"
    unfolding quality_rx_def lang.simps(5) lang.simps(3) lang_keywords lang.simps(6)
      cls_match_Digit ..
  moreover have "q \<in> conc {kw. map to_lower kw \<in> set quality_keywords} {ds. list_all isdigit ds}
      \<longleftrightarrow> quality q" for q
    unfolding conc_iff quality_def by blast
  ultimately show ?thesis by blast
qed

lemma lang_slash_bass: "lang True slash_bass_rx = {b. b = [] \<or> slash_bass b}"
proof -
  have sl: "to_lower c = CHR ''/'' \<longleftrightarrow> c = CHR ''/''" for c
    by (simp add: to_lower_def)
  have "lang True slash_bass_rx
      = conc {[c] | c. c = CHR ''/''}
          (conc {[c] | c. note_letter c} {a. a = [] \<or> accidental a}) \<union> {[]}"
    unfolding slash_bass_rx_def lang.simps(5) lang.simps(3) lang_note lang_accidental
    by (simp add: to_lower_slash sl)
  moreover have "b \<in> conc {[c] | c. c = CHR ''/''}
          (conc {[c] | c. note_letter c} {a. a = [] \<or> accidental a}) \<longleftrightarrow> slash_bass b" for b
    unfolding conc_single_iff slash_bass_def by blast
  ultimately show ?thesis by blast
qed

lemma lang_CHORD_TOKEN_RE: "lang True CHORD_TOKEN_RE = {s. chord_grammar s}"
proof -
  have "lang True CHORD_TOKEN_RE
      = conc {[c] | c. note_letter c} (conc {a. a = [] \<or> accidental a}
          (conc {q. q = [] \<or> quality q} {b. b = [] \<or> slash_bass b}))"
    unfolding CHORD_TOKEN_RE_def lang.simps(3) lang_note lang_accidental lang_quality
      lang_slash_bass ..
  moreover have "s \<in> conc {[c] | c. note_letter c} (conc {a. a = [] \<or> accidental a}
          (conc {q. q = [] \<or> quality q} {b. b = [] \<or> slash_bass b})) \<longleftrightarrow> chord_grammar s" for s
  proof
    assume "s \<in> conc {[c] | c. note_letter c} (conc {a. a = [] \<or> accidental a}
          (conc {q. q = [] \<or> quality q} {b. b = [] \<or> slash_bass b}))"
    then obtain root v where 1: "s = root # v" "note_letter root"
      and v: "v \<in> conc {a. a = [] \<or> accidental a}
          (conc {q. q = [] \<or> quality q} {b. b = [] \<or> slash_bass b})"
      unfolding conc_single_iff by blast
    from v obtain a w where 2: "v = a @ w" "a = [] \<or> accidental a"
      and w: "w \<in> conc {q. q = [] \<or> quality q} {b. b = [] \<or> slash_bass b}"
      unfolding conc_iff [of v] by blast
    from w obtain q b where 3: "w = q @ b" "q = [] \<or> quality q" "b = [] \<or> slash_bass b"
      unfolding conc_iff by blast
    have "s = root # a @ q @ b" using 1 2 3 by simp
    then show "chord_grammar s" unfolding chord_grammar_def using 1 2 3 by blast
  next
    assume "chord_grammar s"
    then obtain root a q b where g: "s = root # a @ q @ b" "note_letter root"
      "a = [] \<or> accidental a" "q = [] \<or> quality q" "b = [] \<or> slash_bass b"
      unfolding chord_grammar_def by blast
    have "q @ b \<in> conc {q. q = [] \<or> quality q} {b. b = [] \<or> slash_bass b}"
      unfolding conc_iff using g by blast
    then have "a @ q @ b \<in> conc {a. a = [] \<or> accidental a}
          (conc {q. q = [] \<or> quality q} {b. b = [] \<or> slash_bass b})"
      unfolding conc_iff [of "a @ q @ b"] using g by blast
    then show "s \<in> conc {[c] | c. note_letter c} (conc {a. a = [] \<or> accidental a}
          (conc {q. q = [] \<or> quality q} {b. b = [] \<or> slash_bass b}))"
      unfolding conc_single_iff using g by blast
  qed
  ultimately show ?thesis by blast
qed

lemma is_chord_token_iff_lang: "is_chord_token t \<longleftrightarrow> strip t \<in> lang True CHORD_TOKEN_RE"
proof (cases "t = []")
  case True
  then show ?thesis
    by (simp add: is_chord_token_def lang_CHORD_TOKEN_RE chord_grammar_def strip_def lstrip_def rstrip_def)
next
  case False
  then show ?thesis by (simp add: is_chord_token_def re_match_strip)
qed

section \<open>The three kinds of token\<close>

lemma is_bar_separator_iff:
  "is_bar_separator t \<longleftrightarrow> strip t \<noteq> [] \<and> (\<forall>c \<in> set (strip t). c = CHR ''|'')"
  by (simp add: is_bar_separator_def re_match_strip BAR_SEPARATOR_RE_def list_all_iff)

lemma conc_single_right_iff:
  "w \<in> conc A {[c] | c. P c} \<longleftrightarrow> (\<exists>u c. w = u @ [c] \<and> u \<in> A \<and> P c)"
  unfolding conc_iff by blast

lemma is_parenthetical_annotation_iff:
  "is_parenthetical_annotation t \<longleftrightarrow>
     (\<exists>mid. strip t = CHR ''('' # mid @ '')'' \<and> CHR 0x0A \<notin> set mid)"
proof -
  have "s \<in> lang False PAREN_ANNOTATION_RE \<longleftrightarrow>
      (\<exists>mid. s = CHR ''('' # mid @ '')'' \<and> CHR 0x0A \<notin> set mid)" for s
    unfolding PAREN_ANNOTATION_RE_def lang.simps conc_single_iff conc_single_right_iff
    by (auto simp: list_all_iff)
  then show ?thesis by (simp add: is_parenthetical_annotation_def re_match_strip)
qed

lemma is_chord_token_iff_grammar: "is_chord_token t \<longleftrightarrow> chord_grammar (strip t)"
  by (simp add: is_chord_token_iff_lang lang_CHORD_TOKEN_RE)

lemma chord_grammar_hd: "chord_grammar s \<Longrightarrow> s \<noteq> [] \<and> note_letter (hd s)"
  unfolding chord_grammar_def by auto

lemma note_letter_not_bar: "\<not> note_letter CHR ''|''" and note_letter_not_paren: "\<not> note_letter CHR ''(''"
  by (simp_all add: note_letter_def to_lower_def)

lemma chord_not_bar: "is_chord_token t \<Longrightarrow> \<not> is_bar_separator t"
proof
  assume c: "is_chord_token t" and b: "is_bar_separator t"
  from c have "strip t \<noteq> [] \<and> note_letter (hd (strip t))"
    by (simp add: is_chord_token_iff_grammar chord_grammar_hd)
  moreover from b have "strip t \<noteq> [] \<longrightarrow> hd (strip t) = CHR ''|''"
    by (simp add: is_bar_separator_iff)
  ultimately show False using note_letter_not_bar by auto
qed

lemma chord_not_annotation: "is_chord_token t \<Longrightarrow> \<not> is_parenthetical_annotation t"
proof
  assume c: "is_chord_token t" and b: "is_parenthetical_annotation t"
  from c have "strip t \<noteq> [] \<and> note_letter (hd (strip t))"
    by (simp add: is_chord_token_iff_grammar chord_grammar_hd)
  moreover from b have "hd (strip t) = CHR ''(''"
    by (auto simp: is_parenthetical_annotation_iff)
  ultimately show False using note_letter_not_paren by auto
qed

lemma bar_not_annotation: "is_bar_separator t \<Longrightarrow> \<not> is_parenthetical_annotation t"
proof
  assume b: "is_bar_separator t" and p: "is_parenthetical_annotation t"
  from p obtain mid where "strip t = CHR ''('' # mid @ '')''"
    unfolding is_parenthetical_annotation_iff by blast
  then have m: "CHR ''('' \<in> set (strip t)" by simp
  from b have all: "\<forall>c \<in> set (strip t). c = CHR ''|''" by (simp add: is_bar_separator_iff)
  have "CHR ''('' = CHR ''|''" by (rule bspec [OF all m])
  then show False by simp
qed

section \<open>Scanning: pieces, tokens and offsets\<close>

lemma finditer_nonspace_skip:
  "list_all isspace ws \<Longrightarrow> finditer_nonspace pos (ws @ s) = finditer_nonspace (pos + length ws) s"
  by (induction ws arbitrary: pos) simp_all

lemma concat_finditer_pieces: "concat (finditer_pieces s) = s"
  by (induction s rule: finditer_pieces.induct) simp_all

lemma finditer_pieces_homogeneous:
  "list_all (\<lambda>p. p \<noteq> [] \<and> (list_all isspace p \<or> list_all (\<lambda>c. \<not> isspace c) p))
     (finditer_pieces s)"
proof (induction s rule: finditer_pieces.induct)
  case 1
  show ?case by simp
next
  case (2 c cs)
  have a: "list_all isspace (takeWhile isspace cs)"
    and b: "list_all (\<lambda>c. \<not> isspace c) (takeWhile (\<lambda>x. \<not> isspace x) cs)"
    by (simp_all add: list_all_iff) (auto dest: set_takeWhileD)
  show ?case using 2 a b by simp
qed

lemma str_isspace_run: "\<not> isspace c \<Longrightarrow> \<not> str_isspace (c # xs)"
  and str_isspace_ws_run: "isspace c \<Longrightarrow> str_isspace (c # takeWhile isspace cs)"
  by (auto simp: str_isspace_def list_all_iff dest: set_takeWhileD)

lemma finditer_pieces_hd_after_space:
  "finditer_pieces (dropWhile isspace cs) = p # ps \<Longrightarrow> \<not> str_isspace p"
proof -
  assume eq: "finditer_pieces (dropWhile isspace cs) = p # ps"
  then obtain d ds where d: "dropWhile isspace cs = d # ds" by (cases "dropWhile isspace cs") auto
  then have "\<not> isspace d" by (metis hd_dropWhile list.sel(1) list.distinct(1))
  with eq d show ?thesis by (auto simp: str_isspace_run)
qed

lemma finditer_pieces_hd_after_token:
  "finditer_pieces (dropWhile (\<lambda>x. \<not> isspace x) cs) = p # ps \<Longrightarrow> str_isspace p"
proof -
  assume eq: "finditer_pieces (dropWhile (\<lambda>x. \<not> isspace x) cs) = p # ps"
  then obtain d ds where d: "dropWhile (\<lambda>x. \<not> isspace x) cs = d # ds"
    by (cases "dropWhile (\<lambda>x. \<not> isspace x) cs") auto
  then have "isspace d" by (metis hd_dropWhile list.sel(1) list.distinct(1))
  with eq d show ?thesis by (auto simp: str_isspace_ws_run)
qed

lemma alternating_finditer_pieces: "alternating (finditer_pieces s)"
proof (induction s rule: finditer_pieces.induct)
  case 1
  show ?case by simp
next
  case (2 c cs)
  show ?case
  proof (cases "isspace c")
    case True
    show ?thesis
    proof (cases "finditer_pieces (dropWhile isspace cs)")
      case Nil
      then show ?thesis using True by simp
    next
      case (Cons p ps)
      then have "\<not> str_isspace p" by (rule finditer_pieces_hd_after_space)
      then show ?thesis using True Cons 2(1) by (simp add: str_isspace_ws_run)
    qed
  next
    case False
    show ?thesis
    proof (cases "finditer_pieces (dropWhile (\<lambda>x. \<not> isspace x) cs)")
      case Nil
      then show ?thesis using False by simp
    next
      case (Cons p ps)
      then have "str_isspace p" by (rule finditer_pieces_hd_after_token)
      then show ?thesis using False Cons 2(2) by (simp add: str_isspace_run)
    qed
  qed
qed

lemma maximal_runs_finditer_pieces: "maximal_runs (finditer_pieces s) s"
  unfolding maximal_runs_def
  using concat_finditer_pieces finditer_pieces_homogeneous alternating_finditer_pieces
  by blast

lemma finditer_nonspace_pieces:
  "finditer_nonspace pos s
   = filter (\<lambda>(start, p). \<not> str_isspace p) (with_offsets pos (finditer_pieces s))"
proof (induction s arbitrary: pos rule: finditer_pieces.induct)
  case 1
  show ?case by simp
next
  case (2 c cs)
  show ?case
  proof (cases "isspace c")
    case True
    have "finditer_nonspace pos (c # cs)
        = finditer_nonspace pos ((c # takeWhile isspace cs) @ dropWhile isspace cs)"
      by simp
    also have "\<dots> = finditer_nonspace (pos + length (c # takeWhile isspace cs)) (dropWhile isspace cs)"
      by (rule finditer_nonspace_skip) (use True in \<open>auto simp: list_all_iff dest: set_takeWhileD\<close>)
    finally show ?thesis using True 2(1) by (simp add: str_isspace_ws_run)
  next
    case False
    then show ?thesis using 2(2) by (simp add: str_isspace_run Let_def)
  qed
qed

lemma finditer_nonspace_tokens:
  "finditer_nonspace 0 line = tokens_with_offsets (finditer_pieces line)"
  by (simp add: tokens_with_offsets_def finditer_nonspace_pieces)

section \<open>Chord positions and the insertion loop\<close>

lemma finditer_nonspace_ge: "(p, t) \<in> set (finditer_nonspace pos s) \<Longrightarrow> pos \<le> p"
proof (induction pos s rule: finditer_nonspace.induct)
  case (1 pos)
  then show ?case by simp
next
  case (2 pos c cs)
  show ?case
  proof (cases "isspace c")
    case True
    with 2 show ?thesis by fastforce
  next
    case False
    with 2 show ?thesis by (fastforce simp: Let_def)
  qed
qed

lemma finditer_nonspace_sorted: "sorted_wrt (<) (map fst (finditer_nonspace pos s))"
proof (induction pos s rule: finditer_nonspace.induct)
  case (1 pos)
  show ?case by simp
next
  case (2 pos c cs)
  show ?case
  proof (cases "isspace c")
    case True
    with 2 show ?thesis by simp
  next
    case False
    have "pos < p" if "(p, t) \<in> set (finditer_nonspace
          (pos + length (c # takeWhile (\<lambda>x. \<not> isspace x) cs)) (dropWhile (\<lambda>x. \<not> isspace x) cs))"
      for p t
      using finditer_nonspace_ge [OF that] by simp
    with False 2(2) show ?thesis by (auto simp: Let_def)
  qed
qed

lemma finditer_nonspace_token:
  "(p, t) \<in> set (finditer_nonspace pos s) \<Longrightarrow> t \<noteq> [] \<and> (\<forall>c \<in> set t. \<not> isspace c)"
proof (induction pos s rule: finditer_nonspace.induct)
  case (1 pos)
  then show ?case by simp
next
  case (2 pos c cs)
  show ?case
  proof (cases "isspace c")
    case True
    with 2 show ?thesis by simp
  next
    case False
    let ?tok = "c # takeWhile (\<lambda>x. \<not> isspace x) cs"
    from 2(3) False have "(p, t) = (pos, ?tok)
        \<or> (p, t) \<in> set (finditer_nonspace (pos + length ?tok) (dropWhile (\<lambda>x. \<not> isspace x) cs))"
      by (simp add: Let_def)
    then show ?thesis
    proof
      assume "(p, t) = (pos, ?tok)"
      then have t: "t = ?tok" by simp
      have "\<forall>x \<in> set (takeWhile (\<lambda>x. \<not> isspace x) cs). \<not> isspace x"
        by (auto dest: set_takeWhileD)
      with False show ?thesis unfolding t by simp
    next
      assume "(p, t) \<in> set (finditer_nonspace (pos + length ?tok) (dropWhile (\<lambda>x. \<not> isspace x) cs))"
      then show ?thesis by (rule 2(2) [OF False refl])
    qed
  qed
qed

lemma dropWhile_none: "\<forall>c \<in> set xs. \<not> P c \<Longrightarrow> dropWhile P xs = xs"
  by (cases xs) auto

lemma strip_no_space: "\<forall>c \<in> set t. \<not> isspace c \<Longrightarrow> strip t = t"
  by (simp add: strip_def lstrip_def rstrip_def dropWhile_none)

lemma chord_positions_sorted: "sorted_wrt (<) (map fst (chord_positions chord_line))"
proof -
  have "sorted_wrt (\<lambda>a b. fst a < fst b) (finditer_nonspace 0 chord_line)"
    using finditer_nonspace_sorted [of 0 chord_line] by (simp add: sorted_wrt_map)
  then have "sorted_wrt (\<lambda>a b. fst a < fst b) (chord_positions chord_line)"
    unfolding chord_positions_def by (rule sorted_wrt_filter)
  then show ?thesis by (simp add: sorted_wrt_map)
qed

lemma chord_positions_chord:
  "(p, t) \<in> set (chord_positions chord_line) \<Longrightarrow> is_chord_token t \<and> strip t = t"
proof -
  assume "(p, t) \<in> set (chord_positions chord_line)"
  then have c: "is_chord_token t" and m: "(p, t) \<in> set (finditer_nonspace 0 chord_line)"
    by (auto simp: chord_positions_def)
  from m have "\<forall>c \<in> set t. \<not> isspace c" by (simp add: finditer_nonspace_token)
  then have "strip t = t" by (rule strip_no_space)
  with c show ?thesis by simp
qed

lemma slice_insert_clamped:
  "slice_insert (if int p + int r > int (length xs) then int (length xs) else int p + int r) ins xs
   = insert_at (min (p + r) (length xs)) ins xs"
  by (auto simp: slice_insert_def insert_at_def Let_def min_def nat_add_distrib)

lemma insert_chords_step:
  "insert_chords ((p, t) # rest) (int r) buf
   = insert_chords rest (int (r + (length t + 2)))
       (insert_at (min (p + r) (length buf)) (bracketed t) buf)"
proof -
  have neg: "\<not> int p + int r < 0" by simp
  have len: "int r + int (length (bracketed t)) = int (r + (length t + 2))"
    by (simp add: bracketed_def)
  show ?thesis
    unfolding insert_chords.simps Let_def if_not_P [OF neg] slice_insert_clamped len ..
qed

lemma merge_step_pair:
  "merge_step (r, buf) (p, t)
   = (r + (length t + 2), insert_at (min (p + r) (length buf)) (bracketed t) buf)"
  by (simp add: merge_step_def)

lemma insert_chords_foldl:
  "insert_chords toks (int r) buf = snd (foldl merge_step (r, buf) toks)"
proof (induction toks arbitrary: r buf)
  case Nil
  show ?case by simp
next
  case (Cons a toks)
  obtain p t where a: "a = (p, t)" by (cases a)
  show ?case unfolding a insert_chords_step Cons by (simp add: merge_step_pair)
qed

section \<open>The merged line in closed form\<close>

lemma insert_at_append:
  "k \<le> length l \<Longrightarrow> insert_at (length pre + k) ins (pre @ l) = (pre @ take k l @ ins) @ drop k l"
  by (simp add: insert_at_def)

lemma insert_chords_weave_at:
  "sorted (map fst toks) \<Longrightarrow> \<forall>(p, t) \<in> set toks. base \<le> p \<Longrightarrow> r + base = length pre
   \<Longrightarrow> insert_chords toks (int r) (pre @ l) = pre @ weave_at base toks l"
proof (induction toks arbitrary: r base pre l)
  case Nil
  show ?case by simp
next
  case (Cons a toks)
  obtain p t where a: "a = (p, t)" by (cases a)
  define k where "k = min (p - base) (length l)"
  have bp: "base \<le> p" using Cons.prems(2) a by simp
  have kl: "k \<le> length l" by (simp add: k_def)
  have "min (p + r) (length pre + length l) = length pre + min (p - base) (length l)"
    using bp Cons.prems(3) by arith
  then have idx: "min (p + r) (length (pre @ l)) = length pre + k"
    by (simp add: k_def)
  have srt: "sorted (map fst toks)" using Cons.prems(1) by simp
  have ge: "\<forall>(p', t') \<in> set toks. base + k \<le> p'"
  proof -
    have "p \<le> p'" if "(p', t') \<in> set toks" for p' t'
      using Cons.prems(1) that unfolding a by force
    moreover have "base + k \<le> p" using bp by (simp add: k_def)
    ultimately show ?thesis by fastforce
  qed
  have len: "(r + (length t + 2)) + (base + k) = length (pre @ take k l @ bracketed t)"
    using Cons.prems(3) kl by (simp add: bracketed_def)
  have "insert_chords (a # toks) (int r) (pre @ l)
      = insert_chords toks (int (r + (length t + 2)))
          ((pre @ take k l @ bracketed t) @ drop k l)"
    unfolding a insert_chords_step idx insert_at_append [OF kl] ..
  also have "\<dots> = (pre @ take k l @ bracketed t) @ weave_at (base + k) toks (drop k l)"
    by (rule Cons.IH [OF srt ge len])
  also have "\<dots> = pre @ weave_at base (a # toks) l"
    unfolding a by (simp add: k_def Let_def)
  finally show ?case .
qed

lemma merge_weave_at:
  "merge_chords_and_lyrics chord_line lyric_line
   = weave_at 0 (chord_positions chord_line) lyric_line"
proof -
  have s: "sorted (map fst (chord_positions chord_line))"
    using chord_positions_sorted by (rule strict_sorted_imp_sorted)
  have "insert_chords (chord_positions chord_line) (int 0) ([] @ lyric_line)
      = [] @ weave_at 0 (chord_positions chord_line) lyric_line"
    by (rule insert_chords_weave_at [OF s]) auto
  then show ?thesis by (simp add: merge_chords_and_lyrics_def)
qed

lemma weave_at_weave:
  "\<exists>segs. length segs = length toks + 1 \<and> concat segs = l
     \<and> weave_at base toks l = weave segs (map (\<lambda>(p, t). bracketed t) toks)"
proof (induction toks arbitrary: base l)
  case Nil
  have "length [l] = length ([] :: (nat \<times> string) list) + 1 \<and> concat [l] = l
     \<and> weave_at base [] l = weave [l] (map (\<lambda>(p, t). bracketed t) [])" by simp
  then show ?case by blast
next
  case (Cons a toks)
  obtain p t where a: "a = (p, t)" by (cases a)
  define k where "k = min (p - base) (length l)"
  from Cons.IH [where base = "base + k" and l = "drop k l"] obtain segs where
    segs: "length segs = length toks + 1" "concat segs = drop k l"
      "weave_at (base + k) toks (drop k l) = weave segs (map (\<lambda>(p, t). bracketed t) toks)"
    by blast
  have "length (take k l # segs) = length (a # toks) + 1 \<and> concat (take k l # segs) = l
     \<and> weave_at base (a # toks) l = weave (take k l # segs) (map (\<lambda>(p, t). bracketed t) (a # toks))"
    using segs unfolding a by (simp add: k_def Let_def)
  then show ?case by blast
qed

lemma weave_at_late:
  "\<forall>(p, t) \<in> set late. base + length l \<le> p
   \<Longrightarrow> weave_at base late l = l @ concat (map (\<lambda>(p, t). bracketed t) late)"
proof (induction late arbitrary: base l)
  case Nil
  show ?case by simp
next
  case (Cons a late)
  obtain p t where a: "a = (p, t)" by (cases a)
  have "base + length l \<le> p" using Cons.prems a by simp
  then have k: "min (p - base) (length l) = length l" by arith
  have "\<forall>(p', t') \<in> set late. (base + length l) + length ([] :: string) \<le> p'"
    using Cons.prems by simp
  then have "weave_at (base + length l) late [] = [] @ concat (map (\<lambda>(p, t). bracketed t) late)"
    by (rule Cons.IH)
  then show ?case unfolding a by (simp add: k Let_def)
qed

lemma weave_at_append:
  "\<forall>(p, t) \<in> set late. base + length l \<le> p
   \<Longrightarrow> weave_at base (early @ late) l
       = weave_at base early l @ concat (map (\<lambda>(p, t). bracketed t) late)"
proof (induction early arbitrary: base l)
  case Nil
  then show ?case by (simp add: weave_at_late)
next
  case (Cons a early)
  obtain p t where a: "a = (p, t)" by (cases a)
  define k where "k = min (p - base) (length l)"
  have "\<forall>(p', t') \<in> set late. (base + k) + length (drop k l) \<le> p'"
    using Cons.prems by (simp add: k_def)
  then have "weave_at (base + k) (early @ late) (drop k l)
      = weave_at (base + k) early (drop k l) @ concat (map (\<lambda>(p, t). bracketed t) late)"
    by (rule Cons.IH)
  then show ?case unfolding a by (simp add: k_def Let_def)
qed

lemma sorted_split:
  "sorted (map fst xs)
   \<Longrightarrow> filter (\<lambda>x. fst x < n) xs @ filter (\<lambda>x. n \<le> fst x) xs = xs"
proof (induction xs)
  case Nil
  show ?case by simp
next
  case (Cons x xs)
  show ?case
  proof (cases "fst x < n")
    case True
    then show ?thesis using Cons by simp
  next
    case False
    then have "\<forall>y \<in> set xs. \<not> fst y < n" using Cons.prems by fastforce
    then have "filter (\<lambda>x. fst x < n) xs = []" "filter (\<lambda>x. n \<le> fst x) xs = xs"
      by (simp_all add: filter_empty_conv filter_id_conv not_less)
    then show ?thesis using False by simp
  qed
qed

section \<open>Lengths and brackets of the merged line\<close>

lemma length_insert_chords:
  "length (insert_chords toks (int r) buf)
   = length buf + sum_list (map (\<lambda>(p, t). length t + 2) toks)"
proof (induction toks arbitrary: r buf)
  case Nil
  show ?case by simp
next
  case (Cons a toks)
  obtain p t where a: "a = (p, t)" by (cases a)
  show ?case unfolding a insert_chords_step Cons
    by (simp add: insert_at_def bracketed_def)
qed

lemma count_list_insert_at:
  "count_list (insert_at k ins xs) x = count_list xs x + count_list ins x"
proof -
  have "count_list xs x = count_list (take k xs @ drop k xs) x" by simp
  also have "\<dots> = count_list (take k xs) x + count_list (drop k xs) x"
    by (rule count_list_append)
  finally show ?thesis by (simp add: insert_at_def count_list_append)
qed

lemma count_list_insert_chords:
  "count_list (insert_chords toks (int r) buf) x
   = count_list buf x + sum_list (map (\<lambda>(p, t). count_list (bracketed t) x) toks)"
proof (induction toks arbitrary: r buf)
  case Nil
  show ?case by simp
next
  case (Cons a toks)
  obtain p t where a: "a = (p, t)" by (cases a)
  show ?case unfolding a insert_chords_step Cons
    by (simp add: count_list_insert_at)
qed

lemma not_in_lower_word:
  "to_lower x = x \<Longrightarrow> x \<notin> set (map to_lower a) \<Longrightarrow> x \<notin> set a"
  by force

lemma bracket_lower: "x = CHR ''['' \<or> x = CHR '']'' \<Longrightarrow> to_lower x = x"
  by (elim disjE) (simp_all add: to_lower_def)

lemma bracket_not_note: "x = CHR ''['' \<or> x = CHR '']'' \<Longrightarrow> \<not> note_letter x"
  by (elim disjE) (simp_all add: note_letter_def to_lower_def)

lemma bracket_not_digit: "x = CHR ''['' \<or> x = CHR '']'' \<Longrightarrow> \<not> isdigit x"
  by (elim disjE) (simp_all add: isdigit_def)

lemma bracket_not_accidental:
  assumes x: "x = CHR ''['' \<or> x = CHR '']''" and a: "a = [] \<or> accidental a"
  shows "x \<notin> set a"
proof (rule not_in_lower_word [OF bracket_lower [OF x]])
  from a have "map to_lower a = [] \<or> map to_lower a = ''#'' \<or> map to_lower a = ''b''"
    by (auto simp: accidental_def)
  then show "x \<notin> set (map to_lower a)" using x by auto
qed

lemma bracket_not_quality:
  assumes x: "x = CHR ''['' \<or> x = CHR '']''" and q: "q = [] \<or> quality q"
  shows "x \<notin> set q"
proof (cases "q = []")
  case True
  then show ?thesis by simp
next
  case False
  with q obtain kw ds where q: "q = kw @ ds" and kw: "map to_lower kw \<in> set quality_keywords"
    and ds: "list_all isdigit ds"
    unfolding quality_def by blast
  have "x \<notin> set (map to_lower kw)"
  proof
    assume "x \<in> set (map to_lower kw)"
    with kw have "\<exists>w \<in> set quality_keywords. x \<in> set w" by blast
    then show False using x by (auto simp: quality_keywords_def)
  qed
  then have "x \<notin> set kw" by (rule not_in_lower_word [OF bracket_lower [OF x]])
  moreover have "x \<notin> set ds" using ds bracket_not_digit [OF x] by (auto simp: list_all_iff)
  ultimately show ?thesis using q by simp
qed

lemma bracket_not_slash_bass:
  assumes x: "x = CHR ''['' \<or> x = CHR '']''" and b: "b = [] \<or> slash_bass b"
  shows "x \<notin> set b"
proof (cases "b = []")
  case True
  then show ?thesis by simp
next
  case False
  with b obtain l a where b: "b = CHR ''/'' # l # a" and l: "note_letter l"
    and a: "a = [] \<or> accidental a"
    unfolding slash_bass_def by blast
  have "x \<noteq> CHR ''/''" using x by auto
  moreover have "x \<noteq> l" using l bracket_not_note [OF x] by auto
  moreover have "x \<notin> set a" by (rule bracket_not_accidental [OF x a])
  ultimately show ?thesis using b by simp
qed

lemma chord_grammar_no_bracket:
  assumes x: "x = CHR ''['' \<or> x = CHR '']''" and g: "chord_grammar s"
  shows "x \<notin> set s"
proof -
  from g obtain root a q b where s: "s = root # a @ q @ b" and root: "note_letter root"
    and a: "a = [] \<or> accidental a" and q: "q = [] \<or> quality q" and b: "b = [] \<or> slash_bass b"
    unfolding chord_grammar_def by blast
  have "x \<noteq> root" using root bracket_not_note [OF x] by auto
  then show ?thesis
    using bracket_not_accidental [OF x a] bracket_not_quality [OF x q]
      bracket_not_slash_bass [OF x b]
    unfolding s by simp
qed

lemma chord_position_brackets:
  assumes "(p, t) \<in> set (chord_positions chord_line)"
  shows "count_list (bracketed t) CHR ''['' = 1" and "count_list (bracketed t) CHR '']'' = 1"
proof -
  from assms have "is_chord_token t" "strip t = t" by (simp_all add: chord_positions_chord)
  then have g: "chord_grammar t" by (simp add: is_chord_token_iff_grammar)
  have "CHR ''['' \<notin> set t" "CHR '']'' \<notin> set t"
    by (rule chord_grammar_no_bracket [OF _ g], simp)+
  then have "count_list t CHR ''['' = 0" "count_list t CHR '']'' = 0"
    by (simp_all add: count_list_0_iff)
  then show "count_list (bracketed t) CHR ''['' = 1" and "count_list (bracketed t) CHR '']'' = 1"
    by (simp_all add: bracketed_def count_list_append)
qed

lemma sum_list_ones:
  "\<forall>x \<in> set xs. f x = (1::nat) \<Longrightarrow> sum_list (map f xs) = length xs"
  by (induction xs) simp_all

lemma merge_count_bracket:
  "count_list (merge_chords_and_lyrics chord_line lyric_line) CHR ''[''
   = count_list lyric_line CHR ''['' + length (chord_positions chord_line)"
  "count_list (merge_chords_and_lyrics chord_line lyric_line) CHR '']''
   = count_list lyric_line CHR '']'' + length (chord_positions chord_line)"
proof -
  have l: "sum_list (map (\<lambda>(p, t). count_list (bracketed t) CHR ''['') (chord_positions chord_line))
      = length (chord_positions chord_line)"
    by (rule sum_list_ones) (auto simp: chord_position_brackets)
  have r: "sum_list (map (\<lambda>(p, t). count_list (bracketed t) CHR '']'') (chord_positions chord_line))
      = length (chord_positions chord_line)"
    by (rule sum_list_ones) (auto simp: chord_position_brackets)
  show "count_list (merge_chords_and_lyrics chord_line lyric_line) CHR ''[''
   = count_list lyric_line CHR ''['' + length (chord_positions chord_line)"
    unfolding merge_chords_and_lyrics_def
    using count_list_insert_chords [of "chord_positions chord_line" 0 lyric_line "CHR ''[''"] l
    by simp
  show "count_list (merge_chords_and_lyrics chord_line lyric_line) CHR '']''
   = count_list lyric_line CHR '']'' + length (chord_positions chord_line)"
    unfolding merge_chords_and_lyrics_def
    using count_list_insert_chords [of "chord_positions chord_line" 0 lyric_line "CHR '']''"] r
    by simp
qed

lemma merge_length:
  "length (merge_chords_and_lyrics chord_line lyric_line)
   = length lyric_line + sum_list (map (\<lambda>(p, t). length t + 2) (chord_positions chord_line))"
  unfolding merge_chords_and_lyrics_def
  using length_insert_chords [of "chord_positions chord_line" 0 lyric_line] by simp

lemma ends_with_append: "ends_with (pre @ suf) suf"
  by (simp add: ends_with_def)

lemma sorted_split_positions:
  "sorted (map fst xs)
   \<Longrightarrow> filter (\<lambda>(p, t). p < n) xs @ filter (\<lambda>(p, t). n \<le> p) xs = xs"
  using sorted_split [of xs n] by (simp add: case_prod_unfold)

lemma merge_early_late:
  "merge_chords_and_lyrics chord_line lyric_line
   = insert_chords (filter (\<lambda>(p, t). p < length lyric_line) (chord_positions chord_line)) 0
       lyric_line
     @ concat (map (\<lambda>(p, t). bracketed t)
         (filter (\<lambda>(p, t). length lyric_line \<le> p) (chord_positions chord_line)))"
proof -
  let ?cps = "chord_positions chord_line"
  let ?early = "filter (\<lambda>(p, t). p < length lyric_line) ?cps"
  let ?late = "filter (\<lambda>(p, t). length lyric_line \<le> p) ?cps"
  have s: "sorted (map fst ?cps)"
    using chord_positions_sorted by (rule strict_sorted_imp_sorted)
  then have se: "sorted (map fst ?early)" by (rule sorted_filter)
  have split: "?early @ ?late = ?cps" using s by (rule sorted_split_positions)
  have late: "\<forall>(p, t) \<in> set ?late. 0 + length lyric_line \<le> p" by auto
  have "merge_chords_and_lyrics chord_line lyric_line = weave_at 0 (?early @ ?late) lyric_line"
    unfolding split by (rule merge_weave_at)
  also have "\<dots> = weave_at 0 ?early lyric_line @ concat (map (\<lambda>(p, t). bracketed t) ?late)"
    using late by (rule weave_at_append)
  also have "weave_at 0 ?early lyric_line = insert_chords ?early 0 lyric_line"
    using insert_chords_weave_at [OF se, of 0 0 "[]" lyric_line] by simp
  finally show ?thesis .
qed

section \<open>The formatter piece by piece\<close>

lemma dropWhile_all: "\<forall>c \<in> set xs. P c \<Longrightarrow> dropWhile P xs = []"
  by simp

lemma strip_all_space: "list_all isspace s \<Longrightarrow> strip s = []"
proof -
  assume "list_all isspace s"
  then have d: "dropWhile isspace s = []" by (simp add: list_all_iff)
  show ?thesis unfolding strip_def lstrip_def rstrip_def d by simp
qed

lemma space_not_chord: "str_isspace tok \<Longrightarrow> \<not> is_chord_token tok"
proof -
  assume "str_isspace tok"
  then have "strip tok = []" by (simp add: str_isspace_def strip_all_space)
  then show ?thesis by (simp add: is_chord_token_iff_grammar chord_grammar_def)
qed

lemma format_parts_map: "format_parts toks parts = parts @ map emit_piece toks"
proof (induction toks arbitrary: parts)
  case Nil
  show ?case by simp
next
  case (Cons tok toks)
  show ?case by (simp add: Cons emit_piece_def space_not_chord)
qed

lemma format_chord_only_line_pieces:
  "format_chord_only_line line = concat (map emit_piece (finditer_pieces line))"
  by (simp add: format_chord_only_line_def format_parts_map)

lemma emit_piece_unchanged:
  "str_isspace p \<or> is_bar_separator p \<or> is_parenthetical_annotation p \<Longrightarrow> emit_piece p = p"
  using space_not_chord chord_not_bar chord_not_annotation
  by (auto simp: emit_piece_def)

lemma map_emit_no_chord: "\<forall>p \<in> set ps. \<not> is_chord_token p \<Longrightarrow> map emit_piece ps = ps"
  by (induction ps) (simp_all add: emit_piece_def)

section \<open>The section header pattern\<close>

lemma bracket_delimited_iff:
  "bracket_delimited line \<longleftrightarrow>
     (\<exists>body. strip line = CHR ''['' # body @ '']'' \<and> CHR 0x0A \<notin> set body)"
proof (cases "strip line")
  case Nil
  then show ?thesis by (simp add: bracket_delimited_def)
next
  case (Cons c rest)
  have "(rest \<noteq> [] \<and> last rest = CHR '']'' \<and> CHR 0x0A \<notin> set (butlast rest))
      \<longleftrightarrow> (\<exists>body. rest = body @ '']'' \<and> CHR 0x0A \<notin> set body)"
  proof
    assume a: "rest \<noteq> [] \<and> last rest = CHR '']'' \<and> CHR 0x0A \<notin> set (butlast rest)"
    then have "rest = butlast rest @ '']''" by (metis append_butlast_last_id)
    with a show "\<exists>body. rest = body @ '']'' \<and> CHR 0x0A \<notin> set body" by blast
  next
    assume "\<exists>body. rest = body @ '']'' \<and> CHR 0x0A \<notin> set body"
    then obtain body where "rest = body @ '']''" "CHR 0x0A \<notin> set body" by blast
    then show "rest \<noteq> [] \<and> last rest = CHR '']'' \<and> CHR 0x0A \<notin> set (butlast rest)" by simp
  qed
  then show ?thesis using Cons by (simp add: bracket_delimited_def)
qed

lemma rev_split: "rev (dropWhile P (rev x)) @ rev (takeWhile P (rev x)) = x"
proof -
  have "rev (dropWhile P (rev x)) @ rev (takeWhile P (rev x))
      = rev (takeWhile P (rev x) @ dropWhile P (rev x))"
    by (simp only: rev_append)
  then show ?thesis by (simp only: takeWhile_dropWhile_id rev_rev_ident)
qed

lemma strip_decomposition:
  "\<exists>w1 w2. s = w1 @ strip s @ w2 \<and> list_all isspace w1 \<and> list_all isspace w2"
proof -
  let ?l = "dropWhile isspace s"
  have 1: "s = takeWhile isspace s @ ?l" by simp
  have 2: "?l = strip s @ rev (takeWhile isspace (rev ?l))"
    unfolding strip_def lstrip_def rstrip_def by (rule rev_split [symmetric])
  have a: "list_all isspace (takeWhile isspace s)"
    by (auto simp: list_all_iff dest: set_takeWhileD)
  have b: "list_all isspace (rev (takeWhile isspace (rev ?l)))"
    by (auto simp: list_all_iff dest: set_takeWhileD)
  have "s = takeWhile isspace s @ strip s @ rev (takeWhile isspace (rev ?l))"
    using 1 2 by metis
  with a b show ?thesis by blast
qed

lemma dropWhile_skip:
  "\<forall>x \<in> set ws. P x \<Longrightarrow> \<not> P c \<Longrightarrow> dropWhile P (ws @ c # rest) = c # rest"
  by (induction ws) simp_all

lemma strip_between_space:
  assumes "list_all isspace w1" "list_all isspace w2" "\<not> isspace c" "\<not> isspace d"
  shows "strip (w1 @ c # body @ d # w2) = c # body @ [d]"
proof -
  have "dropWhile isspace (w1 @ c # body @ d # w2) = c # body @ d # w2"
    using assms(1,3) by (simp add: dropWhile_skip list_all_iff)
  moreover have "dropWhile isspace (rev w2 @ d # rev body @ [c]) = d # rev body @ [c]"
    using assms(2,4) by (simp add: dropWhile_skip list_all_iff)
  ultimately show ?thesis by (simp add: strip_def lstrip_def rstrip_def)
qed

lemma bracket_not_space: "\<not> isspace CHR ''[''" "\<not> isspace CHR '']''"
  by (simp_all add: isspace_def whitespace_chars_def)

lemma lang_Seq_iff:
  "s \<in> lang icase (Seq a b) \<longleftrightarrow> (\<exists>u v. s = u @ v \<and> u \<in> lang icase a \<and> v \<in> lang icase b)"
  by (simp add: conc_iff)

lemma lang_Lit_iff: "s \<in> lang False (One (Lit x)) \<longleftrightarrow> s = [x]"
  by auto

lemma lang_Star_Space_iff: "s \<in> lang icase (Star Space) \<longleftrightarrow> list_all isspace s"
  by (simp add: list_all_iff)

lemma lang_Star_Dot_iff: "s \<in> lang icase (Star Dot) \<longleftrightarrow> CHR 0x0A \<notin> set s"
  by (auto simp: list_all_iff)

lemma header_lang:
  "s \<in> lang False SECTION_HEADER_RE \<longleftrightarrow>
     (\<exists>w1 body w2. s = w1 @ CHR ''['' # body @ CHR '']'' # w2 \<and> list_all isspace w1
        \<and> CHR 0x0A \<notin> set body \<and> list_all isspace w2)"
  unfolding SECTION_HEADER_RE_def lang_Seq_iff lang_Lit_iff lang_Star_Space_iff lang_Star_Dot_iff
proof
  assume "\<exists>u v. s = u @ v \<and> list_all isspace u \<and>
      (\<exists>ua va. v = ua @ va \<and> ua = ''['' \<and>
        (\<exists>u v. va = u @ v \<and> CHR 0x0A \<notin> set u \<and>
          (\<exists>ua va. v = ua @ va \<and> ua = '']'' \<and> list_all isspace va)))"
  then obtain w1 body w2 where "s = w1 @ ''['' @ body @ '']'' @ w2" "list_all isspace w1"
    "CHR 0x0A \<notin> set body" "list_all isspace w2"
    by blast
  then have "s = w1 @ CHR ''['' # body @ CHR '']'' # w2 \<and> list_all isspace w1
        \<and> CHR 0x0A \<notin> set body \<and> list_all isspace w2" by simp
  then show "\<exists>w1 body w2. s = w1 @ CHR ''['' # body @ CHR '']'' # w2 \<and> list_all isspace w1
        \<and> CHR 0x0A \<notin> set body \<and> list_all isspace w2" by blast
next
  assume "\<exists>w1 body w2. s = w1 @ CHR ''['' # body @ CHR '']'' # w2 \<and> list_all isspace w1
        \<and> CHR 0x0A \<notin> set body \<and> list_all isspace w2"
  then obtain w1 body w2 where s: "s = w1 @ CHR ''['' # body @ CHR '']'' # w2"
    and w: "list_all isspace w1" "CHR 0x0A \<notin> set body" "list_all isspace w2"
    by blast
  have 4: "\<exists>ua va. '']'' @ w2 = ua @ va \<and> ua = '']'' \<and> list_all isspace va"
    using w by blast
  have 3: "\<exists>u v. body @ '']'' @ w2 = u @ v \<and> CHR 0x0A \<notin> set u \<and>
          (\<exists>ua va. v = ua @ va \<and> ua = '']'' \<and> list_all isspace va)"
    using w 4 by blast
  have 2: "\<exists>ua va. ''['' @ body @ '']'' @ w2 = ua @ va \<and> ua = ''['' \<and>
        (\<exists>u v. va = u @ v \<and> CHR 0x0A \<notin> set u \<and>
          (\<exists>ua va. v = ua @ va \<and> ua = '']'' \<and> list_all isspace va))"
    using 3 by blast
  have "s = w1 @ ''['' @ body @ '']'' @ w2" using s by simp
  then show "\<exists>u v. s = u @ v \<and> list_all isspace u \<and>
      (\<exists>ua va. v = ua @ va \<and> ua = ''['' \<and>
        (\<exists>u v. va = u @ v \<and> CHR 0x0A \<notin> set u \<and>
          (\<exists>ua va. v = ua @ va \<and> ua = '']'' \<and> list_all isspace va)))"
    using w 2 by blast
qed

lemma header_form_newline: "header_form u \<Longrightarrow> header_form (u @ [CHR 0x0A])"
proof -
  assume "header_form u"
  then obtain w1 body w2 where u: "u = w1 @ CHR ''['' # body @ CHR '']'' # w2"
    and w: "list_all isspace w1" "CHR 0x0A \<notin> set body" "list_all isspace w2"
    unfolding header_form_def by blast
  have "u @ [CHR 0x0A] = w1 @ CHR ''['' # body @ CHR '']'' # (w2 @ [CHR 0x0A])"
    using u by simp
  moreover have "list_all isspace (w2 @ [CHR 0x0A])" using w isspace_newline by simp
  ultimately show ?thesis unfolding header_form_def using w(1,2) by blast
qed

lemma is_section_header_form: "is_section_header line \<longleftrightarrow> header_form line"
proof -
  have l: "s \<in> lang False SECTION_HEADER_RE \<longleftrightarrow> header_form s" for s
    unfolding header_form_def by (rule header_lang)
  have "is_section_header line \<longleftrightarrow>
      header_form line \<or> (\<exists>u. header_form u \<and> line = u @ [CHR 0x0A])"
    by (simp add: is_section_header_def re_match_anchored_iff l Bex_def)
  then show ?thesis using header_form_newline by blast
qed

lemma header_form_delimited: "header_form line \<longleftrightarrow> bracket_delimited line"
proof
  assume "header_form line"
  then obtain w1 body w2 where u: "line = w1 @ CHR ''['' # body @ CHR '']'' # w2"
    and w: "list_all isspace w1" "CHR 0x0A \<notin> set body" "list_all isspace w2"
    unfolding header_form_def by blast
  have "strip line = CHR ''['' # body @ '']''"
    unfolding u using w bracket_not_space by (simp add: strip_between_space)
  with w show "bracket_delimited line" unfolding bracket_delimited_iff by blast
next
  assume "bracket_delimited line"
  then obtain body where b: "strip line = CHR ''['' # body @ '']''" "CHR 0x0A \<notin> set body"
    unfolding bracket_delimited_iff by blast
  obtain w1 w2 where d: "line = w1 @ strip line @ w2" "list_all isspace w1" "list_all isspace w2"
    using strip_decomposition by blast
  have "line = w1 @ CHR ''['' # body @ CHR '']'' # w2" using d(1) unfolding b(1) by simp
  with b d show "header_form line" unfolding header_form_def by blast
qed

lemma is_section_header_iff: "is_section_header line \<longleftrightarrow> bracket_delimited line"
  by (simp add: is_section_header_form header_form_delimited)


section \<open>The pass step by step\<close>

declare process_loop.simps [simp del]

lemma process_loop_done: "\<not> i < length lines \<Longrightarrow> process_loop lines i out = Inr out"
  by (subst process_loop.simps) simp

lemma process_loop_unfold:
  "i < length lines \<Longrightarrow>
   process_loop lines i out
   = (case pass_step lines i of (emitted, k) \<Rightarrow> process_loop lines (i + k) (out @ [emitted]))"
  by (subst process_loop.simps)
     (simp add: index_def pass_step_def is_section_header_iff)

lemma pass_step_advance: "snd (pass_step lines i) = 1 \<or> snd (pass_step lines i) = 2"
  by (simp add: pass_step_def)

lemma process_loop_total: "\<exists>res. process_loop lines i out = Inr res"
proof (induction "length lines - i" arbitrary: i out rule: less_induct)
  case less
  show ?case
  proof (cases "i < length lines")
    case False
    then show ?thesis by (simp add: process_loop_done)
  next
    case True
    obtain emitted k where p: "pass_step lines i = (emitted, k)" by (cases "pass_step lines i")
    then have "k = 1 \<or> k = 2" using pass_step_advance [of lines i] by simp
    then have "length lines - (i + k) < length lines - i" using True by arith
    then have "\<exists>res. process_loop lines (i + k) (out @ [emitted]) = Inr res"
      by (rule less)
    then show ?thesis using True p by (simp add: process_loop_unfold)
  qed
qed

section \<open>The classifier on all of Unicode: matching and languages\<close>

lemma set_u_rems: "set (u_rems icase r s) = {s'. \<exists>u \<in> u_lang icase r. s = u @ s'}"
proof (induction r arbitrary: s)
  case Eps
  show ?case by auto
next
  case (One k)
  show ?case by (cases s) auto
next
  case (Seq a b)
  have "x \<in> set (u_rems icase (Seq a b) s) \<longleftrightarrow> (\<exists>w \<in> u_lang icase (Seq a b). s = w @ x)" for x
  proof
    assume "x \<in> set (u_rems icase (Seq a b) s)"
    then obtain s' where s': "s' \<in> set (u_rems icase a s)" "x \<in> set (u_rems icase b s')"
      by auto
    from s' obtain u where u: "u \<in> u_lang icase a" "s = u @ s'" by (auto simp: Seq.IH(1))
    from s' obtain v where v: "v \<in> u_lang icase b" "s' = v @ x" by (auto simp: Seq.IH(2))
    have "u @ v \<in> u_lang icase (Seq a b)" using u v by (auto simp: conc_iff)
    moreover have "s = (u @ v) @ x" using u v by simp
    ultimately show "\<exists>w \<in> u_lang icase (Seq a b). s = w @ x" by blast
  next
    assume "\<exists>w \<in> u_lang icase (Seq a b). s = w @ x"
    then obtain u v where uv: "u \<in> u_lang icase a" "v \<in> u_lang icase b" "s = (u @ v) @ x"
      by (auto simp: conc_iff)
    have "v @ x \<in> set (u_rems icase a s)" using uv by (simp add: Seq.IH(1))
    moreover have "x \<in> set (u_rems icase b (v @ x))" using uv by (simp add: Seq.IH(2))
    ultimately show "x \<in> set (u_rems icase (Seq a b) s)" by auto
  qed
  then show ?case by blast
next
  case (Alt a b)
  show ?case by (simp add: Alt) blast
next
  case (Opt a)
  show ?case by (simp add: Opt) blast
next
  case (Star k)
  show ?case by (simp add: set_many) blast
next
  case (Plus k)
  show ?case
  proof (cases s)
    case Nil
    then show ?thesis by simp
  next
    case (Cons c cs)
    show ?thesis
    proof (cases "u_cls_match icase k c")
      case True
      have "{s'. \<exists>u. cs = u @ s' \<and> list_all (u_cls_match icase k) u}
          = {s'. \<exists>u. u \<noteq> [] \<and> list_all (u_cls_match icase k) u \<and> c # cs = u @ s'}"
        (is "?L = ?R")
      proof (intro set_eqI iffI)
        fix x assume "x \<in> ?L"
        then obtain u where "cs = u @ x" "list_all (u_cls_match icase k) u" by blast
        then have "c # u \<noteq> [] \<and> list_all (u_cls_match icase k) (c # u) \<and> c # cs = (c # u) @ x"
          using True by simp
        then show "x \<in> ?R" by blast
      next
        fix x assume "x \<in> ?R"
        then obtain u where u: "u \<noteq> []" "list_all (u_cls_match icase k) u" "c # cs = u @ x"
          by blast
        then obtain u' where "u = c # u'" by (cases u) auto
        with u have "cs = u' @ x \<and> list_all (u_cls_match icase k) u'" by simp
        then show "x \<in> ?L" by blast
      qed
      then show ?thesis using Cons True by (simp add: set_many)
    next
      case False
      have "\<not> (u \<noteq> [] \<and> list_all (u_cls_match icase k) u \<and> c # cs = u @ x)" for u x
        using False by (cases u) auto
      then show ?thesis using Cons False by simp
    qed
  qed
qed

lemma u_re_match_anchored_iff:
  "u_re_match_anchored icase r s \<longleftrightarrow>
     s \<in> u_lang icase r \<or> (\<exists>u \<in> u_lang icase r. s = u @ [0x0A])"
  unfolding u_re_match_anchored_def list_ex_iff set_u_rems u_at_dollar_def by auto

lemma u_isspace_newline: "u_isspace 0x0A"
  by (simp add: u_isspace_def unicode_whitespace_def)

lemma u_strip_Nil_or_last: "u_strip s = [] \<or> \<not> u_isspace (last (u_strip s))"
proof -
  have "rev (u_strip s) = dropWhile u_isspace (rev (dropWhile u_isspace s))"
    by (simp add: u_strip_def)
  then have "rev (u_strip s) = [] \<or> \<not> u_isspace (hd (rev (u_strip s)))"
    by (metis hd_dropWhile)
  then show ?thesis by (simp add: hd_rev)
qed

lemma u_re_match_strip:
  "u_re_match_anchored icase r (u_strip t) \<longleftrightarrow> u_strip t \<in> u_lang icase r"
proof -
  have "u_strip t \<noteq> u @ [0x0A]" for u
    using u_strip_Nil_or_last [of t] u_isspace_newline by (metis last_snoc snoc_eq_iff_butlast)
  then show ?thesis by (simp add: u_re_match_anchored_iff)
qed

lemma sre_lower_letter:
  "97 \<le> l \<Longrightarrow> l \<le> 122 \<Longrightarrow>
   sre_lower c = l \<longleftrightarrow> ascii_lower c = l \<or> (l = 0x69 \<and> c = 0x130) \<or> (l = 0x6B \<and> c = 0x212A)"
  by (auto simp: sre_lower_def ascii_lower_def)

lemma sre_lower_fix: "sre_lower c = 0x131 \<longleftrightarrow> c = 0x131" "sre_lower c = 0x17F \<longleftrightarrow> c = 0x17F"
  by (auto simp: sre_lower_def)

lemma ignorecase_letter:
  "97 \<le> l \<Longrightarrow> l \<le> 122 \<Longrightarrow> sre_lower c \<in> set (l # sre_fixes l) \<longleftrightarrow> letter_as l c"
  by (auto simp: sre_fixes_def letter_as_def sre_lower_letter sre_lower_fix)

section \<open>The classifier on all of Unicode: the grammar\<close>

lemma u_lang_lits: "u_lang True (lits w) = {s. list_all2 literal_ignorecase w s}"
proof (induction w)
  case Nil
  show ?case by simp
next
  case (Cons x w)
  have "s \<in> u_lang True (lits (x # w)) \<longleftrightarrow> list_all2 literal_ignorecase (x # w) s" for s
    by (simp add: conc_single_iff Cons list_all2_Cons1)
  then show ?case by blast
qed

lemma literal_lower_letter:
  "97 \<le> (of_char x :: nat) \<Longrightarrow> (of_char x :: nat) \<le> 122
   \<Longrightarrow> literal_ignorecase x c \<longleftrightarrow> letter_as (of_char x) c"
proof -
  assume a: "97 \<le> (of_char x :: nat)" "(of_char x :: nat) \<le> 122"
  then have e: "sre_lower (of_char x) = of_char x" by (simp add: sre_lower_def)
  have "literal_ignorecase x c
      \<longleftrightarrow> sre_lower c \<in> set (of_char x # sre_fixes (of_char x))"
    unfolding literal_ignorecase_def Let_def e ..
  also have "\<dots> \<longleftrightarrow> letter_as (of_char x) c" using a by (rule ignorecase_letter)
  finally show ?thesis .
qed

lemma literal_upper_letter:
  "65 \<le> (of_char x :: nat) \<Longrightarrow> (of_char x :: nat) \<le> 90
   \<Longrightarrow> literal_ignorecase x c \<longleftrightarrow> letter_as (of_char x + 32) c"
proof -
  assume a: "65 \<le> (of_char x :: nat)" "(of_char x :: nat) \<le> 90"
  then have e: "sre_lower (of_char x) = of_char x + 32" by (simp add: sre_lower_def)
  have "literal_ignorecase x c
      \<longleftrightarrow> sre_lower c \<in> set ((of_char x + 32) # sre_fixes (of_char x + 32))"
    unfolding literal_ignorecase_def Let_def e ..
  also have "\<dots> \<longleftrightarrow> letter_as (of_char x + 32) c"
    using a by (intro ignorecase_letter) simp_all
  finally show ?thesis .
qed

lemma literal_sharp: "literal_ignorecase CHR ''#'' c \<longleftrightarrow> c = 0x23"
  and literal_slash: "literal_ignorecase CHR ''/'' c \<longleftrightarrow> c = 0x2F"
  by (auto simp: literal_ignorecase_def sre_lower_def sre_fixes_def)

lemma word_as_lower:
  "\<forall>x \<in> set w. 97 \<le> (of_char x :: nat) \<and> (of_char x :: nat) \<le> 122
   \<Longrightarrow> list_all2 literal_ignorecase w s \<longleftrightarrow> word_as w s"
proof (induction w arbitrary: s)
  case Nil
  show ?case by (simp add: word_as_def)
next
  case (Cons x w)
  have x: "literal_ignorecase x c \<longleftrightarrow> letter_as (of_char x) c" for c
    using Cons.prems by (simp add: literal_lower_letter)
  have "list_all2 literal_ignorecase w v \<longleftrightarrow> word_as w v" for v
    using Cons.prems by (simp add: Cons.IH)
  then show ?case by (simp add: list_all2_Cons1 x word_as_def)
qed

lemma keywords_lower_case:
  "w \<in> set quality_keywords \<Longrightarrow> \<forall>x \<in> set w. 97 \<le> (of_char x :: nat) \<and> (of_char x :: nat) \<le> 122"
  by (auto simp: quality_keywords_def)

lemma u_lang_keyword:
  "w \<in> set quality_keywords \<Longrightarrow> u_lang True (lits w) = {s. word_as w s}"
  by (simp add: u_lang_lits word_as_lower keywords_lower_case)

lemma u_lang_note: "u_lang True (One (OneOf ''ABCDEFG'')) = {[c] | c. u_note_letter c}"
  by (simp add: u_note_letter_def literal_upper_letter)

lemma u_lang_accidental: "u_lang True accidental_rx = {a. a = [] \<or> u_accidental a}"
proof -
  have b: "literal_ignorecase CHR ''b'' c \<longleftrightarrow> letter_as 98 c" for c
    using literal_lower_letter [of "CHR ''b''" c] by simp
  have "a \<in> u_lang True accidental_rx \<longleftrightarrow> a = [] \<or> u_accidental a" for a
    unfolding accidental_rx_def u_accidental_def word_as_def
    by (auto simp: literal_sharp b list_all2_Cons1)
  then show ?thesis by blast
qed

lemma u_cls_match_Digit: "u_cls_match icase Digit = u_isdecimal"
  by (rule ext) simp

lemma u_lang_keywords:
  "u_lang True (Alt (lits ''maj'') (Alt (lits ''min'') (Alt (lits ''m'') (Alt (lits ''dim'')
     (Alt (lits ''aug'') (Alt (lits ''sus'') (lits ''add'')))))))
   = {kw. \<exists>w \<in> set quality_keywords. word_as w kw}"
proof -
  have k: "''maj'' \<in> set quality_keywords" "''min'' \<in> set quality_keywords"
    "''m'' \<in> set quality_keywords" "''dim'' \<in> set quality_keywords"
    "''aug'' \<in> set quality_keywords" "''sus'' \<in> set quality_keywords"
    "''add'' \<in> set quality_keywords"
    by (simp_all add: quality_keywords_def)
  have "(\<exists>w \<in> set quality_keywords. word_as w kw) \<longleftrightarrow>
      word_as ''maj'' kw \<or> word_as ''min'' kw \<or> word_as ''m'' kw \<or> word_as ''dim'' kw
      \<or> word_as ''aug'' kw \<or> word_as ''sus'' kw \<or> word_as ''add'' kw" for kw
    unfolding quality_keywords_def by (simp only: set_simps bex_simps ball_simps) blast
  then show ?thesis
    unfolding u_lang.simps(4) u_lang_keyword [OF k(1)] u_lang_keyword [OF k(2)]
      u_lang_keyword [OF k(3)] u_lang_keyword [OF k(4)] u_lang_keyword [OF k(5)]
      u_lang_keyword [OF k(6)] u_lang_keyword [OF k(7)]
    by blast
qed

lemma u_lang_quality: "u_lang True quality_rx = {q. q = [] \<or> u_quality q}"
proof -
  have "u_lang True quality_rx
      = conc {kw. \<exists>w \<in> set quality_keywords. word_as w kw} {ds. list_all u_isdecimal ds} \<union> {[]}"
    unfolding quality_rx_def u_lang.simps(5) u_lang.simps(3) u_lang_keywords u_lang.simps(6)
      u_cls_match_Digit ..
  moreover have "q \<in> conc {kw. \<exists>w \<in> set quality_keywords. word_as w kw}
      {ds. list_all u_isdecimal ds} \<longleftrightarrow> u_quality q" for q
    unfolding conc_iff u_quality_def by blast
  ultimately show ?thesis by blast
qed

lemma u_lang_slash_bass: "u_lang True slash_bass_rx = {b. b = [] \<or> u_slash_bass b}"
proof -
  have "u_lang True slash_bass_rx
      = conc {[c] | c. c = 0x2F}
          (conc {[c] | c. u_note_letter c} {a. a = [] \<or> u_accidental a}) \<union> {[]}"
    unfolding slash_bass_rx_def u_lang.simps(5) u_lang.simps(3) u_lang_note u_lang_accidental
    by (simp add: literal_slash)
  moreover have "b \<in> conc {[c] | c. c = 0x2F}
          (conc {[c] | c. u_note_letter c} {a. a = [] \<or> u_accidental a}) \<longleftrightarrow> u_slash_bass b"
    for b
    unfolding conc_single_iff u_slash_bass_def by blast
  ultimately show ?thesis by blast
qed

lemma u_lang_CHORD_TOKEN_RE: "u_lang True CHORD_TOKEN_RE = {s. u_chord_grammar s}"
proof -
  have "u_lang True CHORD_TOKEN_RE
      = conc {[c] | c. u_note_letter c} (conc {a. a = [] \<or> u_accidental a}
          (conc {q. q = [] \<or> u_quality q} {b. b = [] \<or> u_slash_bass b}))"
    unfolding CHORD_TOKEN_RE_def u_lang.simps(3) u_lang_note u_lang_accidental u_lang_quality
      u_lang_slash_bass ..
  moreover have "s \<in> conc {[c] | c. u_note_letter c} (conc {a. a = [] \<or> u_accidental a}
          (conc {q. q = [] \<or> u_quality q} {b. b = [] \<or> u_slash_bass b}))
      \<longleftrightarrow> u_chord_grammar s" for s
  proof
    assume "s \<in> conc {[c] | c. u_note_letter c} (conc {a. a = [] \<or> u_accidental a}
          (conc {q. q = [] \<or> u_quality q} {b. b = [] \<or> u_slash_bass b}))"
    then obtain root v where 1: "s = root # v" "u_note_letter root"
      and v: "v \<in> conc {a. a = [] \<or> u_accidental a}
          (conc {q. q = [] \<or> u_quality q} {b. b = [] \<or> u_slash_bass b})"
      unfolding conc_single_iff by blast
    from v obtain a w where 2: "v = a @ w" "a = [] \<or> u_accidental a"
      and w: "w \<in> conc {q. q = [] \<or> u_quality q} {b. b = [] \<or> u_slash_bass b}"
      unfolding conc_iff [of v] by blast
    from w obtain q b where 3: "w = q @ b" "q = [] \<or> u_quality q" "b = [] \<or> u_slash_bass b"
      unfolding conc_iff by blast
    have "s = root # a @ q @ b" using 1 2 3 by simp
    then show "u_chord_grammar s" unfolding u_chord_grammar_def using 1 2 3 by blast
  next
    assume "u_chord_grammar s"
    then obtain root a q b where g: "s = root # a @ q @ b" "u_note_letter root"
      "a = [] \<or> u_accidental a" "q = [] \<or> u_quality q" "b = [] \<or> u_slash_bass b"
      unfolding u_chord_grammar_def by blast
    have "q @ b \<in> conc {q. q = [] \<or> u_quality q} {b. b = [] \<or> u_slash_bass b}"
      unfolding conc_iff using g by blast
    then have "a @ q @ b \<in> conc {a. a = [] \<or> u_accidental a}
          (conc {q. q = [] \<or> u_quality q} {b. b = [] \<or> u_slash_bass b})"
      unfolding conc_iff [of "a @ q @ b"] using g by blast
    then show "s \<in> conc {[c] | c. u_note_letter c} (conc {a. a = [] \<or> u_accidental a}
          (conc {q. q = [] \<or> u_quality q} {b. b = [] \<or> u_slash_bass b}))"
      unfolding conc_single_iff using g by blast
  qed
  ultimately show ?thesis by blast
qed

lemma u_is_chord_token_iff_grammar: "u_is_chord_token t \<longleftrightarrow> u_chord_grammar (u_strip t)"
proof (cases "t = []")
  case True
  then show ?thesis
    by (simp add: u_is_chord_token_def u_chord_grammar_def u_strip_def)
next
  case False
  then show ?thesis
    by (simp add: u_is_chord_token_def u_re_match_strip u_lang_CHORD_TOKEN_RE)
qed

lemma sre_lower_ascii_lower: "sre_lower (ascii_lower c) = sre_lower c"
  by (simp add: sre_lower_def ascii_lower_def)

lemma literal_ignorecase_ascii_lower:
  "literal_ignorecase x (ascii_lower c) = literal_ignorecase x c"
  by (simp add: literal_ignorecase_def sre_lower_ascii_lower)

lemma u_isdecimal_ascii_lower: "u_isdecimal (ascii_lower c) = u_isdecimal c"
proof (cases "0x41 \<le> c \<and> c \<le> 0x5A")
  case False
  then show ?thesis by (auto simp: ascii_lower_def)
next
  case True
  then have "\<not> u_isdecimal c" "\<not> u_isdecimal (c + 0x20)"
    by (simp_all add: u_isdecimal_def unicode_decimal_ranges_def)
  then show ?thesis using True by (simp add: ascii_lower_def)
qed

lemma u_isspace_ascii_lower: "u_isspace (ascii_lower c) = u_isspace c"
proof (cases "0x41 \<le> c \<and> c \<le> 0x5A")
  case False
  then show ?thesis by (auto simp: ascii_lower_def)
next
  case True
  then have "\<not> u_isspace c" "\<not> u_isspace (c + 0x20)"
    by (auto simp: u_isspace_def unicode_whitespace_def)
  then show ?thesis using True by (simp add: ascii_lower_def)
qed

lemma ascii_lower_newline: "ascii_lower c = 0x0A \<longleftrightarrow> c = 0x0A"
  by (simp add: ascii_lower_def)

lemma u_cls_match_ascii_lower: "u_cls_match True k (ascii_lower c) = u_cls_match True k c"
  by (cases k)
     (simp_all add: literal_ignorecase_ascii_lower u_isdecimal_ascii_lower
        u_isspace_ascii_lower ascii_lower_newline)

lemma many_map_ascii_lower:
  "many (u_cls_match True k) (map ascii_lower s)
   = map (map ascii_lower) (many (u_cls_match True k) s)"
  by (induction s) (simp_all add: u_cls_match_ascii_lower)

lemma u_rems_map_ascii_lower:
  "u_rems True r (map ascii_lower s) = map (map ascii_lower) (u_rems True r s)"
proof (induction r arbitrary: s)
  case (One k)
  show ?case by (cases s) (simp_all add: u_cls_match_ascii_lower)
next
  case (Seq a b)
  show ?case by (simp add: Seq map_concat comp_def)
next
  case (Plus k)
  show ?case by (cases s) (simp_all add: u_cls_match_ascii_lower many_map_ascii_lower)
qed (simp_all add: many_map_ascii_lower)

lemma u_at_dollar_map_ascii_lower: "u_at_dollar (map ascii_lower s) = u_at_dollar s"
  by (cases s) (auto simp: u_at_dollar_def ascii_lower_newline)

lemma u_re_match_map_ascii_lower:
  "u_re_match_anchored True r (map ascii_lower s) = u_re_match_anchored True r s"
  by (simp add: u_re_match_anchored_def u_rems_map_ascii_lower list_ex_iff
      u_at_dollar_map_ascii_lower)

lemma dropWhile_u_isspace_map_ascii_lower:
  "dropWhile u_isspace (map ascii_lower s) = map ascii_lower (dropWhile u_isspace s)"
  by (induction s) (simp_all add: u_isspace_ascii_lower)

lemma u_strip_map_ascii_lower: "u_strip (map ascii_lower s) = map ascii_lower (u_strip s)"
  by (simp add: u_strip_def dropWhile_u_isspace_map_ascii_lower rev_map)

lemma u_is_chord_token_map_ascii_lower:
  "u_is_chord_token (map ascii_lower t) = u_is_chord_token t"
  by (simp add: u_is_chord_token_def u_strip_map_ascii_lower u_re_match_map_ascii_lower)

section \<open>The two models of the classifier agree\<close>

text \<open>
  On a token of code points below 256 the classifier on all of Unicode gives what the
  classifier of the line model gives: there the tables of white space, digits and
  lower-case forms are the same.
\<close>

lemma of_char_mem: "(of_char c :: nat) \<in> set (map of_char xs) \<longleftrightarrow> c \<in> set xs"
  by (induction xs) simp_all

lemma of_char_image: "(of_char c :: nat) \<in> of_char ` set xs \<longleftrightarrow> c \<in> set xs"
  by (induction xs) simp_all

lemma u_isspace_of_char: "u_isspace (of_char c) \<longleftrightarrow> isspace c"
proof -
  have "map of_char whitespace_chars = [9, 10, 11, 12, 13, 28, 29, 30, 31, 32, 133, 160 :: nat]"
    by (simp add: whitespace_chars_def)
  then have "isspace c \<longleftrightarrow> (of_char c :: nat) \<in> set [9, 10, 11, 12, 13, 28, 29, 30, 31, 32, 133, 160]"
    unfolding isspace_def by (metis of_char_mem)
  moreover have "u_isspace (of_char c)
      \<longleftrightarrow> (of_char c :: nat) \<in> set [9, 10, 11, 12, 13, 28, 29, 30, 31, 32, 133, 160]"
    using nat_of_char_less_256 [of c]
    by (simp add: u_isspace_def unicode_whitespace_def; arith)
  ultimately show ?thesis by simp
qed

lemma u_isdecimal_below_256: "c < 256 \<Longrightarrow> u_isdecimal c \<longleftrightarrow> 48 \<le> c \<and> c \<le> 57"
proof -
  assume c: "c < 256"
  have r: "unicode_decimal_ranges = (48, 57) # tl unicode_decimal_ranges"
    by (simp add: unicode_decimal_ranges_def)
  have "\<forall>(lo, hi) \<in> set (tl unicode_decimal_ranges). 256 \<le> lo"
    by (simp add: unicode_decimal_ranges_def)
  then have "\<not> list_ex (\<lambda>(lo, hi). lo \<le> c \<and> c \<le> hi) (tl unicode_decimal_ranges)"
    using c by (fastforce simp: list_ex_iff)
  then show ?thesis unfolding u_isdecimal_def by (subst r) simp
qed

lemma u_isdecimal_of_char: "u_isdecimal (of_char c) \<longleftrightarrow> isdigit c"
proof -
  have "map of_char ''0123456789'' = [48 ..< 58]"
    by (simp add: upt_rec_numeral)
  then have "isdigit c \<longleftrightarrow> (of_char c :: nat) \<in> set [48 ..< 58]"
    unfolding isdigit_def by (metis of_char_mem)
  also have "\<dots> \<longleftrightarrow> 48 \<le> (of_char c :: nat) \<and> (of_char c :: nat) \<le> 57"
    by (simp only: set_upt atLeastLessThan_iff) arith
  also have "\<dots> \<longleftrightarrow> u_isdecimal (of_char c)"
    using nat_of_char_less_256 [of c] by (simp add: u_isdecimal_below_256)
  finally show ?thesis by simp
qed

lemma upper_of_char:
  "65 \<le> (of_char c :: nat) \<and> (of_char c :: nat) \<le> 90
   \<longleftrightarrow> c \<in> set ''ABCDEFGHIJKLMNOPQRSTUVWXYZ''"
proof -
  have "map of_char ''ABCDEFGHIJKLMNOPQRSTUVWXYZ'' = [65 ..< 91]"
    by (simp add: upt_rec_numeral)
  then have "c \<in> set ''ABCDEFGHIJKLMNOPQRSTUVWXYZ'' \<longleftrightarrow> (of_char c :: nat) \<in> set [65 ..< 91]"
    by (metis of_char_mem)
  also have "\<dots> \<longleftrightarrow> 65 \<le> (of_char c :: nat) \<and> (of_char c :: nat) \<le> 90"
    by (simp only: set_upt atLeastLessThan_iff) arith
  finally show ?thesis by simp
qed

lemma sre_lower_of_char: "sre_lower (of_char c) = of_char (to_lower c)"
proof (cases "c \<in> set ''ABCDEFGHIJKLMNOPQRSTUVWXYZ''")
  case True
  then show ?thesis by (auto simp: to_lower_def sre_lower_def)
next
  case False
  then have "to_lower c = c" using to_lower_cases [of c] by blast
  moreover have "\<not> (65 \<le> (of_char c :: nat) \<and> (of_char c :: nat) \<le> 90)"
    unfolding upper_of_char by (rule False)
  ultimately show ?thesis
    using nat_of_char_less_256 [of c] by (simp add: sre_lower_def; arith)
qed

lemma literal_ignorecase_of_char:
  "literal_ignorecase x (of_char c) \<longleftrightarrow> to_lower c = to_lower x"
proof -
  have n: "(of_char d :: nat) \<noteq> 305" "(of_char d :: nat) \<noteq> 383" for d :: char
    using nat_of_char_less_256 [of d] by arith+
  have "(of_char (to_lower c) :: nat) \<notin> set (sre_fixes lo)" for lo
    by (simp add: sre_fixes_def n)
  then show ?thesis
    by (simp add: literal_ignorecase_def sre_lower_of_char Let_def)
qed

lemma u_cls_match_of_char: "u_cls_match icase k (of_char c) = cls_match icase k c"
proof (cases k)
  case (OneOf xs)
  have "list_ex (\<lambda>x. literal_ignorecase x (of_char c)) xs \<longleftrightarrow> to_lower c \<in> set (map to_lower xs)"
    by (induction xs) (auto simp: literal_ignorecase_of_char)
  then show ?thesis using OneOf by (simp add: of_char_image)
next
  case Dot
  have "(of_char c :: nat) = of_char (CHR 0x0A) \<longleftrightarrow> c = CHR 0x0A" by (rule of_char_eq_iff)
  then show ?thesis using Dot by simp
qed (simp_all add: literal_ignorecase_of_char u_isdecimal_of_char u_isspace_of_char)

lemma many_map_of_char:
  "many (u_cls_match icase k) (map of_char s) = map (map of_char) (many (cls_match icase k) s)"
  by (induction s) (simp_all add: u_cls_match_of_char)

lemma u_rems_map_of_char:
  "u_rems icase r (map of_char s) = map (map of_char) (rems icase r s)"
proof (induction r arbitrary: s)
  case (One k)
  show ?case by (cases s) (simp_all add: u_cls_match_of_char)
next
  case (Seq a b)
  show ?case by (simp add: Seq map_concat comp_def)
next
  case (Plus k)
  show ?case by (cases s) (simp_all add: u_cls_match_of_char many_map_of_char)
qed (simp_all add: many_map_of_char)

lemma u_at_dollar_map_of_char: "u_at_dollar (map of_char s) = at_dollar s"
proof -
  have "(of_char c :: nat) = 10 \<longleftrightarrow> c = CHR 0x0A" for c
    using of_char_eq_iff [of c "CHR 0x0A", where ?'a = nat] by simp
  then show ?thesis by (cases s) (auto simp: u_at_dollar_def at_dollar_def)
qed

lemma dropWhile_u_isspace_map_of_char:
  "dropWhile u_isspace (map of_char s) = map of_char (dropWhile isspace s)"
  by (induction s) (simp_all add: u_isspace_of_char)

lemma u_strip_map_of_char: "u_strip (map of_char s) = map of_char (strip s)"
  by (simp add: u_strip_def strip_def lstrip_def rstrip_def dropWhile_u_isspace_map_of_char
      rev_map)

lemma u_is_chord_token_of_char: "u_is_chord_token (map of_char token) = is_chord_token token"
  by (simp add: u_is_chord_token_def is_chord_token_def u_strip_map_of_char
      u_re_match_anchored_def re_match_anchored_def u_rems_map_of_char list_ex_iff
      u_at_dollar_map_of_char)

section \<open>Claims about the token classifier\<close>

text \<open>
  Claim C3, as the specification states it: a token is a chord exactly when the whole
  trimmed token matches the chord grammar without regard to case, and any two tokens
  that differ only in letter case are classified alike. The pattern is compiled with
  \<open>re.IGNORECASE\<close> and works on all of Unicode. The token \<open>A d U+0130 m\<close> is a
  chord, since the matcher takes U+0130, capital I with a dot, for \<open>i\<close>; its
  lower-case form \<open>a d i U+0307 m\<close> differs from it in letter case only and is no
  chord.
\<close>

theorem case_variants_classified_apart_counterexample:
  "differ_only_in_case [0x41, 0x64, 0x130, 0x6D] [0x61, 0x64, 0x69, 0x307, 0x6D]
   \<and> u_is_chord_token [0x41, 0x64, 0x130, 0x6D]
   \<and> \<not> u_is_chord_token [0x61, 0x64, 0x69, 0x307, 0x6D]"
  by (simp add: differ_only_in_case_def lower_case_of_def u_is_chord_token_def u_strip_def
      u_isspace_def unicode_whitespace_def u_re_match_anchored_def u_at_dollar_def
      CHORD_TOKEN_RE_def accidental_rx_def quality_rx_def slash_bass_rx_def
      literal_ignorecase_def sre_lower_def sre_fixes_def u_isdecimal_def
      unicode_decimal_ranges_def Let_def)

text \<open>
  Claim C3, amended. For every token of Unicode code points, \<open>is_chord_token\<close> holds
  exactly when the whole trimmed token, not a prefix of it, is a word of the chord
  grammar: one letter A to G, an optional accidental \<open>#\<close> or \<open>b\<close>, an optional
  quality keyword among maj, min, m, dim, aug, sus, add with optional decimal digits
  of any script after it, and an optional slash with a bass letter A to G and its
  optional accidental. Letters are read as \<open>re.IGNORECASE\<close> reads them: in either
  ASCII case, and also U+0130 or U+0131 for \<open>i\<close> and U+017F for \<open>s\<close>. Two tokens that
  differ only in the case of their ASCII letters are classified alike.
\<close>

theorem classify_chord_token_unicode:
  "(u_is_chord_token token \<longleftrightarrow> u_chord_grammar (u_strip token))
   \<and> (same_up_to_ascii_case token token'
        \<longrightarrow> u_is_chord_token token = u_is_chord_token token')"
proof
  show "u_is_chord_token token \<longleftrightarrow> u_chord_grammar (u_strip token)"
    by (rule u_is_chord_token_iff_grammar)
  show "same_up_to_ascii_case token token'
        \<longrightarrow> u_is_chord_token token = u_is_chord_token token'"
  proof
    assume "same_up_to_ascii_case token token'"
    then have "map ascii_lower token = map ascii_lower token'"
      by (simp add: same_up_to_ascii_case_def)
    then have "u_is_chord_token (map ascii_lower token)
        = u_is_chord_token (map ascii_lower token')"
      by simp
    then show "u_is_chord_token token = u_is_chord_token token'"
      by (simp only: u_is_chord_token_map_ascii_lower)
  qed
qed

theorem classify_chord_token_unicode_witness:
  "same_up_to_ascii_case [0x61, 0x6D] [0x41, 0x4D]
   \<and> u_is_chord_token [0x61, 0x6D] \<and> u_is_chord_token [0x41, 0x4D]
   \<and> u_chord_grammar (u_strip [0x61, 0x6D])"
proof -
  have c: "u_is_chord_token [0x61, 0x6D]"
    by (simp add: u_is_chord_token_def u_strip_def
      u_isspace_def unicode_whitespace_def u_re_match_anchored_def u_at_dollar_def
      CHORD_TOKEN_RE_def accidental_rx_def quality_rx_def slash_bass_rx_def
      literal_ignorecase_def sre_lower_def sre_fixes_def u_isdecimal_def
      unicode_decimal_ranges_def Let_def)
  have s: "same_up_to_ascii_case [0x61, 0x6D] [0x41, 0x4D]"
    by (simp add: same_up_to_ascii_case_def ascii_lower_def)
  show ?thesis
    using classify_chord_token_unicode [of "[0x61, 0x6D]" "[0x41, 0x4D]"] c s by blast
qed

text \<open>
  Claim C7. At most one of \<open>is_chord_token\<close>, \<open>is_bar_separator\<close> and
  \<open>is_parenthetical_annotation\<close> holds of a token; in particular a token made of
  \<open>|\<close> characters only is not a chord.
\<close>

theorem token_kinds_mutually_exclusive:
  "\<not> (is_chord_token t \<and> is_bar_separator t)
   \<and> \<not> (is_chord_token t \<and> is_parenthetical_annotation t)
   \<and> \<not> (is_bar_separator t \<and> is_parenthetical_annotation t)"
  using chord_not_bar chord_not_annotation bar_not_annotation by blast

theorem token_kinds_mutually_exclusive_witness:
  "is_bar_separator ''||'' \<and> \<not> is_chord_token ''||'' \<and> \<not> is_parenthetical_annotation ''||''"
proof -
  have "is_bar_separator ''||''" by code_simp
  then show ?thesis using token_kinds_mutually_exclusive [of "''||''"] by blast
qed

section \<open>Claims about the merge\<close>

text \<open>
  Claim C1. \<open>merge_chords_and_lyrics\<close> takes the maximal non-white-space runs of the
  chord line with their offsets counted from zero, keeps those that are chords (bar
  separators and annotations are dropped and not put back), and goes through the kept
  tokens from left to right with a running offset that starts at zero: a token \<open>t\<close> of
  offset \<open>p\<close> is inserted as \<open>[t]\<close> at index \<open>p\<close> plus the running offset, cut off at
  the current length of the lyric, and the running offset grows by the length of \<open>t\<close>
  plus two. The result is the final sequence of characters.
\<close>

theorem merge_follows_the_specification:
  "maximal_runs (finditer_pieces chord_line) chord_line
   \<and> sorted_wrt (<) (map fst (tokens_with_offsets (finditer_pieces chord_line)))
   \<and> merge_chords_and_lyrics chord_line lyric_line
       = snd (foldl merge_step (0, lyric_line)
           (filter (\<lambda>(p, t). is_chord_token t)
              (tokens_with_offsets (finditer_pieces chord_line))))"
proof (intro conjI)
  show "maximal_runs (finditer_pieces chord_line) chord_line"
    by (rule maximal_runs_finditer_pieces)
  show "sorted_wrt (<) (map fst (tokens_with_offsets (finditer_pieces chord_line)))"
    using finditer_nonspace_sorted [of 0 chord_line] by (simp add: finditer_nonspace_tokens)
  have "merge_chords_and_lyrics chord_line lyric_line
      = insert_chords (chord_positions chord_line) (int 0) lyric_line"
    by (simp add: merge_chords_and_lyrics_def)
  also have "\<dots> = snd (foldl merge_step (0, lyric_line) (chord_positions chord_line))"
    by (rule insert_chords_foldl)
  finally show "merge_chords_and_lyrics chord_line lyric_line
       = snd (foldl merge_step (0, lyric_line)
           (filter (\<lambda>(p, t). is_chord_token t)
              (tokens_with_offsets (finditer_pieces chord_line))))"
    by (simp add: chord_positions_def finditer_nonspace_tokens)
qed

theorem merge_follows_the_specification_witness:
  "snd (foldl merge_step (0, ''Hello world'')
      (filter (\<lambda>(p, t). is_chord_token t) (tokens_with_offsets (finditer_pieces ''| Am (x2) G''))))
   = ''He[Am]llo worl[G]d''"
proof -
  have m: "merge_chords_and_lyrics ''| Am (x2) G'' ''Hello world'' = ''He[Am]llo worl[G]d''"
    by code_simp
  have e: "merge_chords_and_lyrics ''| Am (x2) G'' ''Hello world''
      = snd (foldl merge_step (0, ''Hello world'')
          (filter (\<lambda>(p, t). is_chord_token t)
             (tokens_with_offsets (finditer_pieces ''| Am (x2) G''))))"
    using merge_follows_the_specification [of "''| Am (x2) G''" "''Hello world''"] by blast
  show ?thesis using e [symmetric] m by (rule trans)
qed

text \<open>
  Claim C4, as the specification states it: the merged line is never shorter than the
  lyric line and holds exactly as many pairs of brackets as the chord line has chord
  tokens. The count fails when the lyric line has brackets of its own: the chord line
  \<open>Am\<close> has one chord token, and merged into \<open>la [x] la\<close> it gives a line with two
  opening brackets.
\<close>

theorem merge_bracket_count_counterexample:
  "is_chord_only_line ''Am''
   \<and> process_lines [''Am'', ''la [x] la''] = Inr [merge_chords_and_lyrics ''Am'' ''la [x] la'']
   \<and> merge_chords_and_lyrics ''Am'' ''la [x] la'' = ''[Am]la [x] la''
   \<and> length (chord_positions ''Am'') = 1
   \<and> count_list (merge_chords_and_lyrics ''Am'' ''la [x] la'') CHR ''['' = 2"
  by code_simp

text \<open>
  Claim C4, amended. The merged line is never shorter than the lyric line. It holds as
  many \<open>[\<close> and as many \<open>]\<close> as the lyric line holds already plus one of each for
  every chord token of the chord line, so exactly one pair for each chord token when
  the lyric line has no brackets. Every token counted is a chord: bar separators and
  annotations add no brackets.
\<close>

theorem merge_length_and_bracket_count:
  "length lyric_line \<le> length (merge_chords_and_lyrics chord_line lyric_line)
   \<and> count_list (merge_chords_and_lyrics chord_line lyric_line) CHR ''[''
       = count_list lyric_line CHR ''['' + length (chord_positions chord_line)
   \<and> count_list (merge_chords_and_lyrics chord_line lyric_line) CHR '']''
       = count_list lyric_line CHR '']'' + length (chord_positions chord_line)
   \<and> (\<forall>(p, t) \<in> set (chord_positions chord_line).
         is_chord_token t \<and> \<not> is_bar_separator t \<and> \<not> is_parenthetical_annotation t)"
proof (intro conjI)
  show "length lyric_line \<le> length (merge_chords_and_lyrics chord_line lyric_line)"
    by (simp add: merge_length)
  show "count_list (merge_chords_and_lyrics chord_line lyric_line) CHR ''[''
       = count_list lyric_line CHR ''['' + length (chord_positions chord_line)"
    by (rule merge_count_bracket)
  show "count_list (merge_chords_and_lyrics chord_line lyric_line) CHR '']''
       = count_list lyric_line CHR '']'' + length (chord_positions chord_line)"
    by (rule merge_count_bracket)
  show "\<forall>(p, t) \<in> set (chord_positions chord_line).
         is_chord_token t \<and> \<not> is_bar_separator t \<and> \<not> is_parenthetical_annotation t"
    using chord_positions_chord chord_not_bar chord_not_annotation by blast
qed

theorem merge_length_and_bracket_count_witness:
  "(2, ''Am'') \<in> set (chord_positions ''| Am (x2) G'')
   \<and> is_chord_token ''Am'' \<and> \<not> is_bar_separator ''Am''
   \<and> count_list (merge_chords_and_lyrics ''| Am (x2) G'' ''Hello world'') CHR ''['' = 2"
proof -
  have m: "(2, ''Am'') \<in> set (chord_positions ''| Am (x2) G'')" by code_simp
  have n: "length (chord_positions ''| Am (x2) G'') = 2" by code_simp
  have z: "count_list ''Hello world'' CHR ''['' = 0" by code_simp
  show ?thesis
    using merge_length_and_bracket_count [of "''Hello world''" "''| Am (x2) G''"] m n z
    by fastforce
qed

text \<open>
  Claim C5, as the specification states it: every chord token whose column exceeds the
  length of the lyric line has its bracketed form at the very end of the merged line.
  With two such tokens only the last can be at the very end: in \<open>   Am G\<close> the token
  \<open>Am\<close> stands in column 3, beyond the lyric \<open>hi\<close>, and the merged line is
  \<open>hi[Am][G]\<close>.
\<close>

theorem late_chord_at_very_end_counterexample:
  "(3, ''Am'') \<in> set (chord_positions ''   Am G'') \<and> length ''hi'' < 3
   \<and> process_lines [''   Am G'', ''hi''] = Inr [merge_chords_and_lyrics ''   Am G'' ''hi'']
   \<and> merge_chords_and_lyrics ''   Am G'' ''hi'' = ''hi[Am][G]''
   \<and> \<not> ends_with (merge_chords_and_lyrics ''   Am G'' ''hi'') (bracketed ''Am'')"
  by code_simp

text \<open>
  Claim C5, amended. The chord tokens whose column is at or beyond the length of the
  lyric line are appended after everything else, whole and in the order of the chord
  line: the merged line is the merge of the earlier chord tokens followed by the
  bracketed forms of the late ones. So the last chord token, when it is such a token,
  has its bracketed form at the very end of the merged line. No token is cut or
  dropped, and the merge has no error result.
\<close>

theorem late_chords_are_appended:
  "merge_chords_and_lyrics chord_line lyric_line
     = insert_chords (filter (\<lambda>(p, t). p < length lyric_line) (chord_positions chord_line)) 0
         lyric_line
       @ concat (map (\<lambda>(p, t). bracketed t)
           (filter (\<lambda>(p, t). length lyric_line \<le> p) (chord_positions chord_line)))
   \<and> (chord_positions chord_line \<noteq> []
        \<and> length lyric_line \<le> fst (last (chord_positions chord_line))
      \<longrightarrow> ends_with (merge_chords_and_lyrics chord_line lyric_line)
            (bracketed (snd (last (chord_positions chord_line)))))"
proof
  show "merge_chords_and_lyrics chord_line lyric_line
     = insert_chords (filter (\<lambda>(p, t). p < length lyric_line) (chord_positions chord_line)) 0
         lyric_line
       @ concat (map (\<lambda>(p, t). bracketed t)
           (filter (\<lambda>(p, t). length lyric_line \<le> p) (chord_positions chord_line)))"
    by (rule merge_early_late)
  show "chord_positions chord_line \<noteq> []
        \<and> length lyric_line \<le> fst (last (chord_positions chord_line))
      \<longrightarrow> ends_with (merge_chords_and_lyrics chord_line lyric_line)
            (bracketed (snd (last (chord_positions chord_line))))"
  proof
    let ?cps = "chord_positions chord_line"
    let ?late = "filter (\<lambda>(p, t). length lyric_line \<le> p) ?cps"
    assume a: "?cps \<noteq> [] \<and> length lyric_line \<le> fst (last ?cps)"
    then obtain xs where xs: "?cps = xs @ [last ?cps]"
      by (metis append_butlast_last_id)
    obtain p t where pt: "last ?cps = (p, t)" by (cases "last ?cps")
    have "length lyric_line \<le> p" using a pt by simp
    then have "?late = filter (\<lambda>(p, t). length lyric_line \<le> p) xs @ [(p, t)]"
      by (subst xs) (simp add: pt)
    then have "concat (map (\<lambda>(p, t). bracketed t) ?late)
        = concat (map (\<lambda>(p, t). bracketed t) (filter (\<lambda>(p, t). length lyric_line \<le> p) xs))
          @ bracketed t"
      by simp
    then have "\<exists>pre. merge_chords_and_lyrics chord_line lyric_line = pre @ bracketed t"
      by (subst merge_early_late) simp
    then show "ends_with (merge_chords_and_lyrics chord_line lyric_line)
        (bracketed (snd (last ?cps)))"
      using ends_with_append pt by auto
  qed
qed

theorem late_chords_are_appended_witness:
  "chord_positions ''   Am G'' \<noteq> []
   \<and> length ''hi'' \<le> fst (last (chord_positions ''   Am G''))
   \<and> ends_with (merge_chords_and_lyrics ''   Am G'' ''hi'') ''[G]''"
proof -
  have c: "chord_positions ''   Am G'' = [(3, ''Am''), (6, ''G'')]" by code_simp
  have h: "chord_positions ''   Am G'' \<noteq> []
      \<and> length ''hi'' \<le> fst (last (chord_positions ''   Am G''))"
    unfolding c by simp
  have "ends_with (merge_chords_and_lyrics ''   Am G'' ''hi'')
      (bracketed (snd (last (chord_positions ''   Am G''))))"
    using late_chords_are_appended [of "''   Am G''" "''hi''"] h by blast
  then have "ends_with (merge_chords_and_lyrics ''   Am G'' ''hi'') ''[G]''"
    unfolding c by (simp add: bracketed_def)
  with h show ?thesis by blast
qed

text \<open>
  Claim C9. The merge only inserts. The lyric line can be cut into pieces, one more
  than there are chord tokens, so that the merged line is the first piece, the first
  bracketed chord, the second piece, the second bracketed chord and so on to the last
  piece: the characters of the lyric keep their order, taking the bracketed chords out
  gives the lyric line back, and the chords stand in the order of the chord line,
  which is the order of their columns.
\<close>

theorem merge_only_inserts:
  "(\<exists>segs. length segs = length (chord_positions chord_line) + 1
       \<and> concat segs = lyric_line
       \<and> merge_chords_and_lyrics chord_line lyric_line
           = weave segs (map (\<lambda>(p, t). bracketed t) (chord_positions chord_line)))
   \<and> sorted_wrt (<) (map fst (chord_positions chord_line))"
proof
  show "\<exists>segs. length segs = length (chord_positions chord_line) + 1
       \<and> concat segs = lyric_line
       \<and> merge_chords_and_lyrics chord_line lyric_line
           = weave segs (map (\<lambda>(p, t). bracketed t) (chord_positions chord_line))"
    unfolding merge_weave_at by (rule weave_at_weave)
  show "sorted_wrt (<) (map fst (chord_positions chord_line))"
    by (rule chord_positions_sorted)
qed

theorem merge_only_inserts_witness:
  "\<exists>segs. length segs = 3 \<and> concat segs = ''Hello world''
     \<and> ''He[Am]llo worl[G]d'' = weave segs [''[Am]'', ''[G]'']"
proof -
  have c: "chord_positions ''| Am (x2) G'' = [(2, ''Am''), (10, ''G'')]" by code_simp
  have m: "merge_chords_and_lyrics ''| Am (x2) G'' ''Hello world'' = ''He[Am]llo worl[G]d''"
    by code_simp
  show ?thesis
    using merge_only_inserts [of "''| Am (x2) G''" "''Hello world''"]
    unfolding c m by (simp add: bracketed_def eval_nat_numeral)
qed

section \<open>Claims about the formatter\<close>

text \<open>
  Claim C6. \<open>format_chord_only_line\<close> cuts the line into its maximal runs of white
  space and of other characters and gives every piece back in its place. A run of
  white space, a bar separator and a parenthetical annotation are given back character
  for character; a chord token is given back between brackets. So the characters of
  separators and annotations are never altered, and \<open>| B | A | E | E | x2\<close> becomes
  \<open>| [B] | [A] | [E] | [E] | x2\<close>.
\<close>

theorem format_keeps_separators_and_annotations:
  "maximal_runs (finditer_pieces line) line
   \<and> format_chord_only_line line = concat (map emit_piece (finditer_pieces line))
   \<and> (\<forall>p \<in> set (finditer_pieces line).
        (str_isspace p \<or> is_bar_separator p \<or> is_parenthetical_annotation p
           \<longrightarrow> emit_piece p = p)
        \<and> (is_chord_token p \<longrightarrow> emit_piece p = bracketed p))
   \<and> format_chord_only_line ''| B | A | E | E | x2'' = ''| [B] | [A] | [E] | [E] | x2''"
proof (intro conjI)
  show "maximal_runs (finditer_pieces line) line"
    by (rule maximal_runs_finditer_pieces)
  show "format_chord_only_line line = concat (map emit_piece (finditer_pieces line))"
    by (rule format_chord_only_line_pieces)
  show "\<forall>p \<in> set (finditer_pieces line).
        (str_isspace p \<or> is_bar_separator p \<or> is_parenthetical_annotation p
           \<longrightarrow> emit_piece p = p)
        \<and> (is_chord_token p \<longrightarrow> emit_piece p = bracketed p)"
  proof (intro ballI conjI impI)
    fix p
    assume "str_isspace p \<or> is_bar_separator p \<or> is_parenthetical_annotation p"
    then show "emit_piece p = p" by (rule emit_piece_unchanged)
  next
    fix p
    assume "is_chord_token p"
    then show "emit_piece p = bracketed p" by (simp add: emit_piece_def)
  qed
  show "format_chord_only_line ''| B | A | E | E | x2'' = ''| [B] | [A] | [E] | [E] | x2''"
    by code_simp
qed

theorem format_keeps_separators_and_annotations_witness:
  "''(x2)'' \<in> set (finditer_pieces ''| Am | (x2)'') \<and> is_parenthetical_annotation ''(x2)''
   \<and> emit_piece ''(x2)'' = ''(x2)''
   \<and> ''Am'' \<in> set (finditer_pieces ''| Am | (x2)'') \<and> is_chord_token ''Am''
   \<and> emit_piece ''Am'' = ''[Am]''"
proof -
  have a: "''(x2)'' \<in> set (finditer_pieces ''| Am | (x2)'')" by code_simp
  have b: "is_parenthetical_annotation ''(x2)''" by code_simp
  have c: "''Am'' \<in> set (finditer_pieces ''| Am | (x2)'')" by code_simp
  have d: "is_chord_token ''Am''" by code_simp
  have e: "bracketed ''Am'' = ''[Am]''" by (simp add: bracketed_def)
  show ?thesis
    using format_keeps_separators_and_annotations [of "''| Am | (x2)''"] a b c d e by metis
qed

text \<open>
  Claim C10. \<open>format_chord_only_line\<close> is defined on every line, chord-only or not:
  it has no error result. A token that is not white space, not a chord, not a bar
  separator and not an annotation goes through the last branch of the loop, which
  copies it. So the list of parts is as long as the list of pieces, every piece that
  is not a chord stands unchanged at its index, and a line without chord tokens is
  returned as it is.
\<close>

theorem format_copies_other_tokens:
  "(\<not> str_isspace tok \<and> \<not> is_chord_token tok \<and> \<not> is_parenthetical_annotation tok
      \<and> \<not> is_bar_separator tok
      \<longrightarrow> format_parts (tok # toks) parts = format_parts toks (parts @ [tok]))
   \<and> length (format_parts (finditer_pieces line) []) = length (finditer_pieces line)
   \<and> (\<forall>i < length (finditer_pieces line).
        \<not> is_chord_token (finditer_pieces line ! i)
        \<longrightarrow> format_parts (finditer_pieces line) [] ! i = finditer_pieces line ! i)
   \<and> ((\<forall>p \<in> set (finditer_pieces line). \<not> is_chord_token p)
        \<longrightarrow> format_chord_only_line line = line)"
proof (intro conjI)
  show "\<not> str_isspace tok \<and> \<not> is_chord_token tok \<and> \<not> is_parenthetical_annotation tok
      \<and> \<not> is_bar_separator tok
      \<longrightarrow> format_parts (tok # toks) parts = format_parts toks (parts @ [tok])"
    by simp
  show "length (format_parts (finditer_pieces line) []) = length (finditer_pieces line)"
    by (simp add: format_parts_map)
  show "\<forall>i < length (finditer_pieces line).
        \<not> is_chord_token (finditer_pieces line ! i)
        \<longrightarrow> format_parts (finditer_pieces line) [] ! i = finditer_pieces line ! i"
    by (simp add: format_parts_map emit_piece_def)
  show "(\<forall>p \<in> set (finditer_pieces line). \<not> is_chord_token p)
        \<longrightarrow> format_chord_only_line line = line"
  proof
    assume "\<forall>p \<in> set (finditer_pieces line). \<not> is_chord_token p"
    then have "map emit_piece (finditer_pieces line) = finditer_pieces line"
      by (rule map_emit_no_chord)
    then show "format_chord_only_line line = line"
      by (simp add: format_chord_only_line_pieces concat_finditer_pieces)
  qed
qed

theorem format_copies_other_tokens_witness:
  "\<not> is_chord_only_line ''Hello Am world''
   \<and> (0::nat) < length (finditer_pieces ''Hello Am world'')
   \<and> \<not> is_chord_token (finditer_pieces ''Hello Am world'' ! 0)
   \<and> format_parts (finditer_pieces ''Hello Am world'') [] ! 0 = ''Hello''
   \<and> format_parts [''Hello''] [] = format_parts [] [''Hello'']
   \<and> format_chord_only_line ''Hello Am world'' = ''Hello [Am] world''"
proof -
  have p: "finditer_pieces ''Hello Am world'' = [''Hello'', '' '', ''Am'', '' '', ''world'']"
    by code_simp
  have a: "\<not> is_chord_only_line ''Hello Am world''" by code_simp
  have b: "\<not> is_chord_token ''Hello''" by code_simp
  have c: "format_chord_only_line ''Hello Am world'' = ''Hello [Am] world''" by code_simp
  have d: "\<not> str_isspace ''Hello'' \<and> \<not> is_parenthetical_annotation ''Hello''
      \<and> \<not> is_bar_separator ''Hello''"
    by code_simp
  have "(0::nat) < length (finditer_pieces ''Hello Am world'')
      \<and> \<not> is_chord_token (finditer_pieces ''Hello Am world'' ! 0)"
    unfolding p using b by simp
  moreover from this
  have "format_parts (finditer_pieces ''Hello Am world'') [] ! 0
      = finditer_pieces ''Hello Am world'' ! 0"
    using format_copies_other_tokens [of "''Hello''" "[]" "[]" "''Hello Am world''"] by blast
  then have "format_parts (finditer_pieces ''Hello Am world'') [] ! 0 = ''Hello''"
    by (simp only: p nth_Cons_0)
  moreover have "format_parts [''Hello''] [] = format_parts [] ([] @ [''Hello''])"
    using format_copies_other_tokens [of "''Hello''" "[]" "[]" "''Hello Am world''"] b d
    by blast
  then have "format_parts [''Hello''] [] = format_parts [] [''Hello'']"
    by (simp only: append_Nil)
  ultimately show ?thesis using a c by blast
qed

section \<open>Claims about the pass over the lines\<close>




text \<open>
  Claim C8. The pass is total and deterministic: on every list of lines
  \<open>process_lines\<close> ends with a list of output lines and never with an error, and
  equal inputs give equal outputs. The loop is a function with a proved measure, the
  number of lines left, so it returns on every input.
\<close>

theorem process_lines_total_and_deterministic:
  "(\<exists>out. process_lines lines = Inr out)
   \<and> (lines' = lines \<longrightarrow> process_lines lines' = process_lines lines)"
  by (simp add: process_lines_def process_loop_total)

theorem process_lines_total_and_deterministic_witness:
  "\<exists>out. process_lines [''Am G'', ''hello there'', ''Am'', ''[Chorus]''] = Inr out
     \<and> out = [''[Am]hel[G]lo there'', ''[Am]'', ''[Chorus]'']"
proof -
  have e: "process_lines [''Am G'', ''hello there'', ''Am'', ''[Chorus]'']
      = Inr [''[Am]hel[G]lo there'', ''[Am]'', ''[Chorus]'']"
    by code_simp
  show ?thesis
    using process_lines_total_and_deterministic
      [of "[''Am G'', ''hello there'', ''Am'', ''[Chorus]'']"
          "[''Am G'', ''hello there'', ''Am'', ''[Chorus]'']"] e
    by simp
qed

end
